theory Spec2Isabelle
  imports Main
begin

section \<open>Memory: C strings inside a byte buffer\<close>

text \<open>
  \<^verbatim>\<open>shell.c\<close> works on C strings that live inside one heap buffer, the line that
  \<^verbatim>\<open>getline\<close> returns. \<^verbatim>\<open>strtok\<close> cuts that buffer up in place (it overwrites
  delimiters with the terminator), and every \<^verbatim>\<open>char*\<close> the program keeps afterwards
  points into it. The buffer is a list of bytes; a non-null \<^verbatim>\<open>char*\<close> into it is an
  offset, a nullable one an offset option. A read or write outside the list is
  undefined behaviour in C and a \<open>fault\<close> here.
\<close>

datatype fault =
    NullDeref        \<comment> \<open>a null pointer handed to a string function\<close>
  | OutOfBounds      \<comment> \<open>an access outside the object pointed into\<close>
  | BufferOverflow   \<comment> \<open>\<^verbatim>\<open>strcpy\<close>/\<^verbatim>\<open>strcat\<close> past the end of a \<^verbatim>\<open>char[PATH_MAX]\<close>\<close>
  | Indeterminate    \<comment> \<open>a read of an array that no call has filled\<close>

type_synonym buffer = "char list"

definition NUL :: char where
  "NUL = CHR 0x00"

definition BIG_NUM :: nat where
  "BIG_NUM = 2048"

definition PATH_MAX :: nat where
  "PATH_MAX = 4096"

text \<open>The bytes of the C string that starts at offset \<open>p\<close>: up to the first terminator.\<close>

definition c_str :: "buffer \<Rightarrow> nat \<Rightarrow> string" where
  "c_str buf p = takeWhile (\<lambda>c. c \<noteq> NUL) (drop p buf)"

text \<open>
  A string function that walks from \<open>p\<close> to the terminator (\<^verbatim>\<open>strlen\<close>, \<^verbatim>\<open>strcmp\<close>,
  \<^verbatim>\<open>strcat\<close>'s source) stays inside the buffer only if a terminator follows \<open>p\<close>.
\<close>

definition read_str :: "buffer \<Rightarrow> nat option \<Rightarrow> fault + string" where
  "read_str buf q =
     (case q of
        None \<Rightarrow> Inl NullDeref
      | Some p \<Rightarrow> if NUL \<in> set (drop p buf) then Inr (c_str buf p) else Inl OutOfBounds)"

subsection \<open>strtok\<close>

text \<open>
  The C library's \<^verbatim>\<open>strtok\<close>, started at offset \<open>p\<close> (the \<^verbatim>\<open>string\<close> argument of the
  first call, the saved pointer of a call with \<^verbatim>\<open>NULL\<close>): skip the delimiters
  (\<^verbatim>\<open>strspn\<close>); at the terminator there is no token; otherwise the token runs to the next
  delimiter or terminator (\<^verbatim>\<open>strcspn\<close>), a delimiter there is overwritten with the
  terminator, and the saved pointer moves behind it. The result is the token, the
  buffer and the saved pointer. The delimiters are a C string themselves, so the
  terminator is never one of them.
\<close>

definition is_delim :: "string \<Rightarrow> char \<Rightarrow> bool" where
  "is_delim delimiter c \<longleftrightarrow> c \<noteq> NUL \<and> c \<in> set delimiter"

definition in_token :: "string \<Rightarrow> char \<Rightarrow> bool" where
  "in_token delimiter c \<longleftrightarrow> c \<noteq> NUL \<and> c \<notin> set delimiter"

definition strtok :: "buffer \<Rightarrow> nat \<Rightarrow> string \<Rightarrow> fault + (nat option \<times> buffer \<times> nat)" where
  "strtok buf p delimiter =
     (let s = p + length (takeWhile (is_delim delimiter) (drop p buf)) in
      if length buf \<le> s then Inl OutOfBounds
      else if buf ! s = NUL then Inr (None, buf, s)
      else
        let e = s + length (takeWhile (in_token delimiter) (drop s buf)) in
        if length buf \<le> e then Inl OutOfBounds
        else if buf ! e = NUL then Inr (Some s, buf, e)
        else Inr (Some s, buf[e := NUL], e + 1))"

subsection \<open>tokenize\<close>

text \<open>
  \<^verbatim>\<open>int tokenize(char* string, char* delimiter, char* tokens[], int* token_count)\<close>.
  \<open>tokens\<close> is the caller's array, its length the number of cells the caller
  declared; \<open>limit\<close> is the value of \<^verbatim>\<open>*token_count\<close> on entry. The loop stores the
  current word and fetches the next one while there is a word and the count is below
  \<open>limit - 1\<close>. The count runs from 0 and stays below \<open>limit - 1\<close>, so no \<^verbatim>\<open>int\<close>
  wraps (both callers pass 2048).
\<close>

function tokenize_loop ::
  "string \<Rightarrow> int \<Rightarrow> nat option \<Rightarrow> buffer \<Rightarrow> nat \<Rightarrow> nat option list \<Rightarrow> nat
     \<Rightarrow> fault + (nat option \<times> buffer \<times> nat option list \<times> nat)" where
  "tokenize_loop delimiter limit word buf save tokens token_count =
     (if word \<noteq> None \<and> int token_count < limit - 1 then
        if length tokens \<le> token_count then Inl OutOfBounds
        else
          (case strtok buf save delimiter of
             Inl f \<Rightarrow> Inl f
           | Inr (word', buf', save') \<Rightarrow>
               tokenize_loop delimiter limit word' buf' save'
                 (tokens[token_count := word]) (token_count + 1))
      else Inr (word, buf, tokens, token_count))"
  by pat_completeness auto
termination
  by (relation "measure (\<lambda>(delimiter, limit, word, buf, save, tokens, token_count).
                   nat (limit - 1 - int token_count))") auto

declare tokenize_loop.simps [simp del]

record tokenized =
  tk_ret :: int                  \<comment> \<open>the return value: 0 or -1\<close>
  tk_buf :: buffer               \<comment> \<open>the buffer, cut up\<close>
  tk_tokens :: "nat option list" \<comment> \<open>the caller's array\<close>
  tk_count :: nat                \<comment> \<open>\<^verbatim>\<open>*token_count\<close> on return\<close>

definition tokenize ::
  "buffer \<Rightarrow> nat \<Rightarrow> string \<Rightarrow> nat option list \<Rightarrow> int \<Rightarrow> fault + tokenized" where
  "tokenize buf string delimiter tokens limit =
     (case strtok buf string delimiter of
        Inl f \<Rightarrow> Inl f
      | Inr (word, buf1, save) \<Rightarrow>
          (case tokenize_loop delimiter limit word buf1 save tokens 0 of
             Inl f \<Rightarrow> Inl f
           | Inr (word', buf2, tokens2, token_count) \<Rightarrow>
               if length tokens2 \<le> token_count then Inl OutOfBounds
               else Inr \<lparr>tk_ret = (if int token_count < limit - 1 then 0 else - 1),
                         tk_buf = buf2,
                         tk_tokens = tokens2[token_count := None],
                         tk_count = token_count\<rparr>))"

section \<open>The process and its operating system\<close>

text \<open>
  What the shell changes and what it prints: the working directory as \<^verbatim>\<open>getcwd\<close>
  reports it, the environment, the writes to standard output, the diagnostics on
  standard error, and the calls it made that act on the process or on other processes.
\<close>

datatype errno = ENOENT | ENOTDIR | EACCES | ENAMETOOLONG | ENOMEM | EINVAL | EAGAIN | ENOEXEC

datatype diag =
    Perror string errno   \<comment> \<open>\<^verbatim>\<open>perror(prefix)\<close> with \<^verbatim>\<open>errno\<close> as it stands\<close>
  | Message string        \<comment> \<open>\<^verbatim>\<open>fprintf(stderr, ...)\<close>\<close>

datatype syscall =
    Chdir string
  | Setenv string string
  | Fork
  | Execvp string "string list"
  | IgnoreSigchld
  | Wait

record shell_state =
  cwd :: string
  env :: "string \<rightharpoonup> string"
  out :: "string list"
  err :: "diag list"
  calls :: "syscall list"

text \<open>
  The operating system's answers are parameters. The program tests \<^verbatim>\<open>errno\<close>, which
  it clears before each call, and never a return value; a call that fails sets
  \<^verbatim>\<open>errno\<close> to its cause and a call that succeeds leaves it alone. So an answer is
  the cause of the failure or the effect of the success:
  \<^item> \<open>chdir_res os d p\<close>: \<^verbatim>\<open>chdir(p)\<close> in a process whose directory is \<open>d\<close>, giving
    the directory the process is in afterwards;
  \<^item> \<open>setenv_res os name value\<close>: the cause if \<^verbatim>\<open>setenv\<close> fails;
  \<^item> \<open>fork_res os\<close>: what \<^verbatim>\<open>fork\<close> returns in the process that is modelled, 0 in
    the child and the child's identifier in the parent;
  \<^item> \<open>execvp_res os file argv\<close>: the cause if \<^verbatim>\<open>execvp\<close> returns at all;
  \<^item> \<open>pw_name os\<close>, \<open>hostname os\<close>: the login name, if \<^verbatim>\<open>getpwuid\<close> finds one, and
    the host name.
\<close>

record os =
  chdir_res :: "string \<Rightarrow> string \<Rightarrow> errno + string"
  setenv_res :: "string \<Rightarrow> string \<Rightarrow> errno option"
  fork_res :: "errno + nat"
  execvp_res :: "string \<Rightarrow> string list \<Rightarrow> errno option"
  pw_name :: "string option"
  hostname :: string

text \<open>
  \<^verbatim>\<open>getcwd(cur_path, PATH_MAX)\<close> fills the array only if the path and its terminator
  fit; the program does not test for that, so otherwise the array stays unfilled.
\<close>

definition getcwd :: "shell_state \<Rightarrow> string option" where
  "getcwd s = (if length (cwd s) < PATH_MAX then Some (cwd s) else None)"

definition read_array :: "string option \<Rightarrow> fault + string" where
  "read_array a = (case a of None \<Rightarrow> Inl Indeterminate | Some t \<Rightarrow> Inr t)"

section \<open>cd\<close>

text \<open>
  \<^verbatim>\<open>new_path\<close> is a \<^verbatim>\<open>char[PATH_MAX]\<close>: a string and its terminator must fit.
  The source of a copy is a nullable pointer (\<^verbatim>\<open>getenv\<close> returns \<^verbatim>\<open>NULL\<close> for a
  variable that is not set).
\<close>

definition strcpy_path :: "string option \<Rightarrow> fault + string" where
  "strcpy_path src =
     (case src of
        None \<Rightarrow> Inl NullDeref
      | Some t \<Rightarrow> if length t < PATH_MAX then Inr t else Inl BufferOverflow)"

definition strcat_path :: "string \<Rightarrow> string option \<Rightarrow> fault + string" where
  "strcat_path dst src =
     (case src of
        None \<Rightarrow> Inl NullDeref
      | Some t \<Rightarrow> if length dst + length t < PATH_MAX then Inr (dst @ t) else Inl BufferOverflow)"

text \<open>
  The loop \<^verbatim>\<open>for (int i = 0; i < path_count; i++)\<close>: a separator, then the segment.
  \<^verbatim>\<open>cd\<close> reads the cells of \<^verbatim>\<open>path\<close> only as strings, so the array is kept as the
  string each cell points to.
\<close>

function cd_append :: "string option list \<Rightarrow> nat \<Rightarrow> nat \<Rightarrow> string \<Rightarrow> fault + string" where
  "cd_append path path_count i new_path =
     (if i < path_count then
        if length path \<le> i then Inl OutOfBounds
        else
          (case strcat_path new_path (Some ''/'') of
             Inl f \<Rightarrow> Inl f
           | Inr new_path1 \<Rightarrow>
               (case strcat_path new_path1 (path ! i) of
                  Inl f \<Rightarrow> Inl f
                | Inr new_path2 \<Rightarrow> cd_append path path_count (i + 1) new_path2))
      else Inr new_path)"
  by pat_completeness auto
termination
  by (relation "measure (\<lambda>(path, path_count, i, new_path). path_count - i)") auto

declare cd_append.simps [simp del]

text \<open>
  The choice of the anchor and the appending of the segments (from the test for \<^verbatim>\<open>~\<close>
  to the end of the loop), given whether the argument starts at the root, the array
  \<^verbatim>\<open>path\<close> and \<^verbatim>\<open>path_count\<close>. \<^verbatim>\<open>strcmp(path[0], "~")\<close> reads the first cell, which
  is null when the argument has no segment. \<^verbatim>\<open>cd -\<close> prints the path.
\<close>

definition cd_build ::
  "bool \<Rightarrow> string option list \<Rightarrow> nat \<Rightarrow> shell_state \<Rightarrow> fault + (string \<times> shell_state)" where
  "cd_build rooted path path_count s =
     (let old_path = env s ''OLDPWD'';
          home = env s ''HOME'';
          path_delimiter = ''/'';
          cur_path = getcwd s;
          new_path = []
      in case path ! 0 of
        None \<Rightarrow> Inl NullDeref
      | Some first \<Rightarrow>
          if first = ''~'' then
            (case strcpy_path home of
               Inl f \<Rightarrow> Inl f
             | Inr new_path1 \<Rightarrow>
                 (case cd_append (path[0 := Some []]) path_count 0 new_path1 of
                    Inl f \<Rightarrow> Inl f
                  | Inr new_path2 \<Rightarrow> Inr (new_path2, s)))
          else if first = ''-'' then
            (case strcpy_path old_path of
               Inl f \<Rightarrow> Inl f
             | Inr new_path1 \<Rightarrow>
                 (case cd_append path 0 0 new_path1 of
                    Inl f \<Rightarrow> Inl f
                  | Inr new_path2 \<Rightarrow>
                      Inr (new_path2, s\<lparr>out := out s @ [new_path1 @ [CHR 0x0A]]\<rparr>)))
          else if rooted then
            (case strcpy_path (Some path_delimiter) of
               Inl f \<Rightarrow> Inl f
             | Inr new_path1 \<Rightarrow>
                 (case cd_append path path_count 0 new_path1 of
                    Inl f \<Rightarrow> Inl f
                  | Inr new_path2 \<Rightarrow> Inr (new_path2, s)))
          else
            (case read_array cur_path of
               Inl f \<Rightarrow> Inl f
             | Inr cur \<Rightarrow>
                 (case strcat_path new_path (Some cur) of
                    Inl f \<Rightarrow> Inl f
                  | Inr new_path1 \<Rightarrow>
                      (case cd_append path path_count 0 new_path1 of
                         Inl f \<Rightarrow> Inl f
                       | Inr new_path2 \<Rightarrow> Inr (new_path2, s)))))"

text \<open>
  The first half of \<^verbatim>\<open>cd\<close> (up to the end of the path parsing): the path under
  construction, the buffer that \<^verbatim>\<open>tokenize\<close> cut further, and the state.
  \<open>given_path\<close> points into the input buffer or is null. \<^verbatim>\<open>path\<close> has \<^verbatim>\<open>PATH_MAX\<close>
  cells.
\<close>

definition cd_path ::
  "buffer \<Rightarrow> nat option \<Rightarrow> shell_state \<Rightarrow> fault + (string \<times> buffer \<times> shell_state)" where
  "cd_path buf given_path s =
     (case given_path of
        None \<Rightarrow>
          (case strcat_path [] (env s ''HOME'') of
             Inl f \<Rightarrow> Inl f
           | Inr new_path \<Rightarrow> Inr (new_path, buf, s))
      | Some g \<Rightarrow>
          if length buf \<le> g then Inl OutOfBounds
          else
            let rooted = (buf ! g = CHR ''/'') in
            (case tokenize buf g ''/'' (replicate PATH_MAX None) (int BIG_NUM) of
               Inl f \<Rightarrow> Inl f
             | Inr r \<Rightarrow>
                 (case cd_build rooted (map (map_option (c_str (tk_buf r))) (tk_tokens r))
                         (tk_count r) s of
                    Inl f \<Rightarrow> Inl f
                  | Inr (new_path, s') \<Rightarrow> Inr (new_path, tk_buf r, s'))))"

text \<open>
  The second half: \<^verbatim>\<open>chdir\<close>, then \<^verbatim>\<open>OLDPWD\<close>, then \<^verbatim>\<open>PWD\<close>, each only if
  \<^verbatim>\<open>errno\<close> is still 0 after the step before; \<^verbatim>\<open>perror("")\<close> otherwise.
\<close>

definition cd_apply :: "os \<Rightarrow> string \<Rightarrow> shell_state \<Rightarrow> fault + shell_state" where
  "cd_apply os new_path s =
     (let cur_path = getcwd s;
          s1 = s\<lparr>calls := calls s @ [Chdir new_path]\<rparr>
      in case chdir_res os (cwd s) new_path of
        Inl e \<Rightarrow> Inr (s1\<lparr>err := err s1 @ [Perror [] e]\<rparr>)
      | Inr d \<Rightarrow>
          let s2 = s1\<lparr>cwd := d\<rparr> in
          (case read_array cur_path of
             Inl f \<Rightarrow> Inl f
           | Inr cur \<Rightarrow>
               let s3 = s2\<lparr>calls := calls s2 @ [Setenv ''OLDPWD'' cur]\<rparr> in
               (case setenv_res os ''OLDPWD'' cur of
                  Some e \<Rightarrow> Inr (s3\<lparr>err := err s3 @ [Perror [] e]\<rparr>)
                | None \<Rightarrow>
                    let s4 = s3\<lparr>env := (env s3)(''OLDPWD'' \<mapsto> cur),
                                 calls := calls s3 @ [Setenv ''PWD'' new_path]\<rparr> in
                    (case setenv_res os ''PWD'' new_path of
                       Some e \<Rightarrow> Inr (s4\<lparr>err := err s4 @ [Perror [] e]\<rparr>)
                     | None \<Rightarrow> Inr (s4\<lparr>env := (env s4)(''PWD'' \<mapsto> new_path)\<rparr>)))))"

definition cd :: "os \<Rightarrow> buffer \<Rightarrow> nat option \<Rightarrow> shell_state \<Rightarrow> fault + (buffer \<times> shell_state)" where
  "cd os buf given_path s =
     (case cd_path buf given_path s of
        Inl f \<Rightarrow> Inl f
      | Inr (new_path, buf', s') \<Rightarrow>
          (case cd_apply os new_path s' of
             Inl f \<Rightarrow> Inl f
           | Inr s'' \<Rightarrow> Inr (buf', s'')))"

section \<open>main\<close>

text \<open>\<^verbatim>\<open>printf\<close>'s \<^verbatim>\<open>%d\<close> for a process identifier, which is not negative here.\<close>

function dec_digits :: "nat \<Rightarrow> string" where
  "dec_digits n =
     (if n < 10 then [char_of (48 + n)]
      else dec_digits (n div 10) @ [char_of (48 + n mod 10)])"
  by pat_completeness auto
termination
  by (relation "measure (\<lambda>n. n)") auto

declare dec_digits.simps [simp del]

text \<open>The five \<^verbatim>\<open>printf\<close> calls of the prompt, escape sequences and box characters as bytes.\<close>

definition prompt_text :: "string \<Rightarrow> string \<Rightarrow> string \<Rightarrow> char \<Rightarrow> string list" where
  "prompt_text username host cur_path prompt =
     [[CHR 0x1B] @ ''[1m'' @ [CHR 0xE2, CHR 0x95, CHR 0xAD, CHR 0xE2, CHR 0x94, CHR 0x80]
        @ [CHR 0x1B] @ ''[0m'',
      [CHR 0x1B] @ ''[92;1m'' @ username @ ''@'' @ host @ [CHR 0x1B] @ ''[0m '',
      [CHR 0x1B] @ ''[34;1m'' @ cur_path @ [CHR 0x1B] @ ''[0m '' @ [CHR 0x0A],
      [CHR 0x1B] @ ''[1m'' @ [CHR 0xE2, CHR 0x95, CHR 0xB0, CHR 0xE2, CHR 0x94, CHR 0x80]
        @ [CHR 0x1B] @ ''[0m'',
      [CHR 0x1B] @ ''[1m'' @ [prompt] @ [CHR 0x1B] @ ''[0m '']"

text \<open>
  How an iteration ends: the loop goes on, the process has called \<^verbatim>\<open>exit\<close>, or (in
  the child) \<^verbatim>\<open>execvp\<close> has replaced the program.
\<close>

datatype outcome =
    Continue shell_state
  | Exited int shell_state
  | Replaced string "string list" shell_state

text \<open>The argument vector \<^verbatim>\<open>execvp\<close> reads: the strings up to the first null cell.\<close>

definition argv_of :: "buffer \<Rightarrow> nat option list \<Rightarrow> fault + string list" where
  "argv_of buf args =
     (let cells = takeWhile (\<lambda>q. q \<noteq> None) args in
      if length cells = length args then Inl OutOfBounds
      else if \<exists>q \<in> set cells. NUL \<notin> set (drop (the q) buf) then Inl OutOfBounds
      else Inr (map (\<lambda>q. c_str buf (the q)) cells))"

text \<open>
  The last branch of the dispatch: \<^verbatim>\<open>fork\<close>, then the child's part, the failure, or
  the parent's part. \<open>arg_count\<close> is at least 1 here. The child works on its own copy
  of the memory, so the cell it clears is cleared for \<^verbatim>\<open>execvp\<close> only. The parent
  reads the byte \<^verbatim>\<open>final_arg[strlen(final_arg - 1)]\<close>: the length is that of the
  string that starts one byte before the last token.
\<close>

definition launch ::
  "os \<Rightarrow> buffer \<Rightarrow> nat option list \<Rightarrow> nat \<Rightarrow> shell_state \<Rightarrow> fault + outcome" where
  "launch os input command_args arg_count s =
     (let s1 = s\<lparr>calls := calls s @ [Fork]\<rparr>
      in case fork_res os of
        Inl e \<Rightarrow> Inr (Exited 1 (s1\<lparr>err := err s1 @ [Perror ''Fork failed: '' e]\<rparr>))
      | Inr child_pid \<Rightarrow>
          if child_pid = 0 then
            (case read_str input (command_args ! (arg_count - 1)) of
               Inl f \<Rightarrow> Inl f
             | Inr final \<Rightarrow>
                 let args1 = (if final = ''&'' then command_args[arg_count - 1 := None]
                              else command_args) in
                 (case read_str input (command_args ! 0) of
                    Inl f \<Rightarrow> Inl f
                  | Inr command \<Rightarrow>
                      (case argv_of input args1 of
                         Inl f \<Rightarrow> Inl f
                       | Inr argv \<Rightarrow>
                           let s2 = s1\<lparr>calls := calls s1 @ [Execvp command argv]\<rparr> in
                           (case execvp_res os command argv of
                              None \<Rightarrow> Inr (Replaced command argv s2)
                            | Some e \<Rightarrow> Inr (Exited (- 1) (s2\<lparr>err := err s2 @ [Perror [] e]\<rparr>))))))
          else
            let s2 = s1\<lparr>calls := calls s1 @ [IgnoreSigchld]\<rparr> in
            (case command_args ! (arg_count - 1) of
               None \<Rightarrow> Inl NullDeref
             | Some final_arg \<Rightarrow>
                 if final_arg = 0 then Inl OutOfBounds
                 else
                   (case read_str input (Some (final_arg - 1)) of
                      Inl f \<Rightarrow> Inl f
                    | Inr lead \<Rightarrow>
                        let k = final_arg + length lead in
                        if length input \<le> k then Inl OutOfBounds
                        else if input ! k \<noteq> CHR ''&'' then
                          Inr (Continue (s2\<lparr>calls := calls s2 @ [Wait]\<rparr>))
                        else
                          Inr (Continue (s2\<lparr>out := out s2 @
                                 [''Job '' @ dec_digits child_pid @ [CHR 0x0A]]\<rparr>)))))"

text \<open>
  The chain of tests on the first token. \<^verbatim>\<open>strlen(command_args[1])\<close> is evaluated only
  for \<^verbatim>\<open>cd\<close> with a second token; \<^verbatim>\<open>cd\<close> gets the second cell, which is null when
  there is one token.
\<close>

definition dispatch ::
  "os \<Rightarrow> buffer \<Rightarrow> nat option list \<Rightarrow> nat \<Rightarrow> shell_state \<Rightarrow> fault + outcome" where
  "dispatch os input command_args arg_count s =
     (let command = command_args ! 0
      in if arg_count = 0 then Inr (Continue s)
      else
        (case read_str input command of
           Inl f \<Rightarrow> Inl f
         | Inr cmd \<Rightarrow>
             if cmd = ''exit'' then Inr (Exited 0 s)
             else
               (case (if cmd = ''cd'' \<and> 1 < arg_count
                      then (case read_str input (command_args ! 1) of
                              Inl f \<Rightarrow> Inl f
                            | Inr a \<Rightarrow> Inr (PATH_MAX < length a))
                      else Inr False) of
                  Inl f \<Rightarrow> Inl f
                | Inr too_long \<Rightarrow>
                    if too_long then
                      Inr (Continue (s\<lparr>err := err s @ [Message ''ERROR: Path Invalid: too long'']\<rparr>))
                    else if cmd = ''cd'' then
                      (case cd os input (command_args ! 1) s of
                         Inl f \<Rightarrow> Inl f
                       | Inr (input', s') \<Rightarrow> Inr (Continue s'))
                    else launch os input command_args arg_count s)))"

text \<open>
  One pass through the body of \<^verbatim>\<open>while(1)\<close>, for the line \<^verbatim>\<open>getline\<close> read (with
  its newline, if it has one): the prompt, the tokens, the dispatch, and the clearing
  of \<^verbatim>\<open>command_args\<close>. That array is the one variable of \<^verbatim>\<open>main\<close> whose content
  outlives an iteration, so the iteration takes it and returns it beside the outcome.
  \<^verbatim>\<open>strcmp(cur_path, home)\<close> reads both strings. The end of the input, where
  \<^verbatim>\<open>getline\<close> reads no line, is not modelled.
\<close>

definition shell_iteration ::
  "os \<Rightarrow> string \<Rightarrow> nat option list \<Rightarrow> shell_state \<Rightarrow> fault + outcome \<times> nat option list" where
  "shell_iteration os line command_args s =
     (let home = env s ''HOME'';
          username = (case pw_name os of Some n \<Rightarrow> n | None \<Rightarrow> ''ERROR'');
          prompt = (if username \<noteq> ''root'' then CHR ''%'' else CHR ''#'');
          delimiter = [CHR '' '', CHR 0x0A]
      in case read_array (getcwd s) of
        Inl f \<Rightarrow> Inl f
      | Inr cur \<Rightarrow>
          (case home of
             None \<Rightarrow> Inl NullDeref
           | Some h \<Rightarrow>
               let cur_path = (if cur = h then ''~'' else cur);
                   s1 = s\<lparr>out := out s @ prompt_text username (hostname os) cur_path prompt\<rparr>;
                   input = line @ [NUL]
               in
               (case tokenize input 0 delimiter command_args (int BIG_NUM) of
                  Inl f \<Rightarrow> Inl f
                | Inr r \<Rightarrow>
                    let s2 = (if tk_ret r \<noteq> 0
                              then s1\<lparr>err := err s1 @ [Message (''Exceeded length'' @ [CHR 0x0A])]\<rparr>
                              else s1);
                        arg_count = (if tk_ret r \<noteq> 0 then 0 else tk_count r)
                    in
                    (case dispatch os (tk_buf r) (tk_tokens r) arg_count s2 of
                       Inl f \<Rightarrow> Inl f
                     | Inr (Continue s3) \<Rightarrow>
                         Inr (Continue s3,
                              fold (\<lambda>i a. a[i := None]) [0..<arg_count] (tk_tokens r))
                     | Inr (Exited status s3) \<Rightarrow> Inr (Exited status s3, tk_tokens r)
                     | Inr (Replaced file argv s3) \<Rightarrow> Inr (Replaced file argv s3, tk_tokens r)))))"

section \<open>Words\<close>

text \<open>
  The words of a text, read off the specification: the maximal runs of characters that
  are not delimiters, in order. The scan keeps the run it is in and closes it at a
  delimiter or at the end.
\<close>

fun split_runs :: "string \<Rightarrow> string \<Rightarrow> string \<Rightarrow> string list" where
  "split_runs delimiter run [] = (if run = [] then [] else [run])"
| "split_runs delimiter run (c # cs) =
     (if c \<in> set delimiter
      then (if run = [] then split_runs delimiter [] cs else run # split_runs delimiter [] cs)
      else split_runs delimiter (run @ [c]) cs)"

definition words_of :: "string \<Rightarrow> string \<Rightarrow> string list" where
  "words_of delimiter text = split_runs delimiter [] text"

text \<open>
  A token in the buffer: the bytes of \<open>w\<close> at offset \<open>q\<close>, with a terminator behind.
\<close>

definition token_at :: "buffer \<Rightarrow> nat \<Rightarrow> string \<Rightarrow> bool" where
  "token_at buf q w \<longleftrightarrow> take (length w + 1) (drop q buf) = w @ [NUL]"

text \<open>
  The cells of \<^verbatim>\<open>path\<close> as \<^verbatim>\<open>cd\<close> finds them after \<^verbatim>\<open>tokenize\<close>, for an argument
  \<open>a\<close>: the segments of \<open>a\<close> (at most \<open>BIG_NUM - 1\<close> of them), then null cells.
\<close>

definition path_cells :: "string \<Rightarrow> string option list" where
  "path_cells a =
     (let segments = take (BIG_NUM - 1) (words_of ''/'' a)
      in map Some segments @ replicate (PATH_MAX - length segments) None)"

section \<open>An example system\<close>

text \<open>
  A small operating system to run the program on: three directories exist; \<^verbatim>\<open>chdir\<close>
  takes an absolute path, ignores empty segments (repeated and trailing separators)
  and fails with \<^verbatim>\<open>ENOENT\<close> for any other directory; the environment can always be
  set; \<^verbatim>\<open>fork\<close> returns in the parent.
\<close>

definition example_chdir :: "string \<Rightarrow> string \<Rightarrow> errno + string" where
  "example_chdir d p =
     (let q = concat (map (\<lambda>w. CHR ''/'' # w) (words_of ''/'' p))
      in if q \<in> {''/tmp'', ''/home/u'', ''/x/a/b''} then Inr q else Inl ENOENT)"

definition example_os :: os where
  "example_os =
     \<lparr>chdir_res = example_chdir,
      setenv_res = (\<lambda>name value. None),
      fork_res = Inr 4711,
      execvp_res = (\<lambda>file argv. Some ENOENT),
      pw_name = Some ''u'',
      hostname = ''host''\<rparr>"

definition example_state :: shell_state where
  "example_state =
     \<lparr>cwd = ''/home/u'',
      env = [''HOME'' \<mapsto> ''/home/u'', ''OLDPWD'' \<mapsto> ''/var'', ''PWD'' \<mapsto> ''/home/u''],
      out = [], err = [], calls = []\<rparr>"


text \<open>
  What an iteration leaves behind: the state an iteration that goes on ends in, and an
  environment variable and the working directory there.
\<close>

definition continued :: "fault + outcome \<times> nat option list \<Rightarrow> shell_state option" where
  "continued res = (case res of Inr (Continue s, args) \<Rightarrow> Some s | _ \<Rightarrow> None)"

definition env_after :: "fault + outcome \<times> nat option list \<Rightarrow> string \<Rightarrow> string option" where
  "env_after res name = (case continued res of None \<Rightarrow> None | Some s \<Rightarrow> env s name)"

definition cwd_after :: "fault + outcome \<times> nat option list \<Rightarrow> string option" where
  "cwd_after res = map_option cwd (continued res)"

text \<open>The calls made and the standard output written by the end of an iteration, however it ends.\<close>

fun outcome_state :: "outcome \<Rightarrow> shell_state" where
  "outcome_state (Continue s) = s"
| "outcome_state (Exited status s) = s"
| "outcome_state (Replaced file argv s) = s"

definition calls_after :: "fault + outcome \<times> nat option list \<Rightarrow> syscall list option" where
  "calls_after res = (case res of Inl f \<Rightarrow> None | Inr (oc, args) \<Rightarrow> Some (calls (outcome_state oc)))"

definition out_after :: "fault + outcome \<times> nat option list \<Rightarrow> string list option" where
  "out_after res = (case res of Inl f \<Rightarrow> None | Inr (oc, args) \<Rightarrow> Some (out (outcome_state oc)))"

text \<open>The segments of a path as \<^verbatim>\<open>cd\<close>'s loop appends them: each behind a separator.\<close>

definition appended :: "string list \<Rightarrow> string" where
  "appended segments = concat (map (\<lambda>w. CHR ''/'' # w) segments)"

text \<open>
  The state once the prompt is printed, and an iteration up to there: \<^verbatim>\<open>main\<close> reads
  the working directory and \<^verbatim>\<open>HOME\<close> for the prompt before it reads the line.
\<close>

definition prompted :: "os \<Rightarrow> string \<Rightarrow> string \<Rightarrow> shell_state \<Rightarrow> shell_state" where
  "prompted os cur h s =
     s\<lparr>out := out s @ prompt_text
            (case pw_name os of Some n \<Rightarrow> n | None \<Rightarrow> ''ERROR'') (hostname os)
            (if cur = h then ''~'' else cur)
            (if (case pw_name os of Some n \<Rightarrow> n | None \<Rightarrow> ''ERROR'') \<noteq> ''root''
             then CHR ''%'' else CHR ''#'')\<rparr>"

definition after_prompt ::
  "os \<Rightarrow> shell_state \<Rightarrow> (shell_state \<Rightarrow> fault + outcome) \<Rightarrow> fault + outcome" where
  "after_prompt os s continue =
     (case read_array (getcwd s) of
        Inl f \<Rightarrow> Inl f
      | Inr cur \<Rightarrow>
          (case env s ''HOME'' of
             None \<Rightarrow> Inl NullDeref
           | Some h \<Rightarrow> continue (prompted os cur h s)))"

section \<open>What strtok and tokenize compute\<close>

lemma takeWhile_stop: "\<not> P x \<Longrightarrow> takeWhile P (xs @ x # ys) = takeWhile P xs"
  by (induction xs) auto

lemma split_runs_token:
  "\<forall>c \<in> set w. c \<notin> set d \<Longrightarrow> split_runs d run (w @ rest) = split_runs d (run @ w) rest"
  by (induction w arbitrary: run) auto

lemma split_runs_delims:
  "\<forall>c \<in> set ds. c \<in> set d \<Longrightarrow> split_runs d [] (ds @ rest) = split_runs d [] rest"
  by (induction ds) auto

lemma words_of_unfold:
  "words_of d s =
     (let s1 = dropWhile (\<lambda>c. c \<in> set d) s in
      if s1 = [] then []
      else takeWhile (\<lambda>c. c \<notin> set d) s1 # words_of d (tl (dropWhile (\<lambda>c. c \<notin> set d) s1)))"
proof -
  define ds where "ds = takeWhile (\<lambda>c. c \<in> set d) s"
  define s1 where "s1 = dropWhile (\<lambda>c. c \<in> set d) s"
  define w where "w = takeWhile (\<lambda>c. c \<notin> set d) s1"
  define r where "r = dropWhile (\<lambda>c. c \<notin> set d) s1"
  have s: "s = ds @ s1" and s1: "s1 = w @ r"
    by (simp_all add: ds_def s1_def w_def r_def)
  have ds: "\<forall>c \<in> set ds. c \<in> set d"
    unfolding ds_def by (auto dest: set_takeWhileD)
  have w: "\<forall>c \<in> set w. c \<notin> set d"
    unfolding w_def by (auto dest: set_takeWhileD)
  have skip: "words_of d s = split_runs d [] s1"
    unfolding words_of_def s by (rule split_runs_delims [OF ds])
  show ?thesis
  proof (cases "s1 = []")
    case True
    with skip have "words_of d s = []" by simp
    with True show ?thesis by (simp add: s1_def [symmetric])
  next
    case False
    then have hd1: "hd s1 \<notin> set d"
      unfolding s1_def using hd_dropWhile by metis
    with False have wne: "w \<noteq> []"
      unfolding w_def by (cases s1) auto
    have "split_runs d [] s1 = split_runs d w r"
      unfolding s1 using split_runs_token [OF w, of "[]" r] by simp
    also have "\<dots> = w # words_of d (tl r)"
    proof (cases r)
      case Nil
      with wne show ?thesis by (simp add: words_of_def)
    next
      case (Cons c r')
      have "c \<in> set d"
        using hd_dropWhile [of "\<lambda>c. c \<notin> set d" s1] Cons unfolding r_def by auto
      with wne Cons show ?thesis by (simp add: words_of_def)
    qed
    finally show ?thesis
      using False skip by (simp add: s1_def [symmetric] w_def r_def Let_def)
  qed
qed


lemma token_at_c_str: "token_at buf q w \<Longrightarrow> NUL \<notin> set w \<Longrightarrow> c_str buf q = w"
proof -
  assume t: "token_at buf q w" and w: "NUL \<notin> set w"
  have "drop q buf = (w @ [NUL]) @ drop (length w + 1) (drop q buf)"
    using t append_take_drop_id [of "length w + 1" "drop q buf"] by (simp add: token_at_def)
  then have "c_str buf q = takeWhile (\<lambda>c. c \<noteq> NUL) (w @ NUL # drop (length w + 1) (drop q buf))"
    by (simp add: c_str_def)
  also have "\<dots> = takeWhile (\<lambda>c. c \<noteq> NUL) w"
    by (rule takeWhile_stop) simp
  also have "\<dots> = w"
    using w by (auto simp: takeWhile_eq_all_conv)
  finally show ?thesis .
qed

lemma token_at_terminated: "token_at buf q w \<Longrightarrow> NUL \<in> set (drop q buf)"
proof -
  assume t: "token_at buf q w"
  have "NUL \<in> set (take (length w + 1) (drop q buf))"
    using t by (simp add: token_at_def)
  then show ?thesis by (rule in_set_takeD)
qed

lemma token_at_frame:
  assumes "token_at buf q w" and "q + length w + 1 \<le> n" and "take n buf' = take n buf"
  shows "token_at buf' q w"
proof -
  define m where "m = q + (length w + 1)"
  have cut: "take (length w + 1) (drop q b) = drop q (take m (take n b))" for b :: buffer
  proof -
    have "take m (take n b) = take m b"
      using assms(2) by (simp add: m_def min_def)
    then show ?thesis by (simp add: drop_take m_def)
  qed
  have "take (length w + 1) (drop q buf') = drop q (take m (take n buf'))"
    by (rule cut)
  also have "\<dots> = drop q (take m (take n buf))"
    by (simp only: assms(3))
  also have "\<dots> = take (length w + 1) (drop q buf)"
    by (rule cut [symmetric])
  finally show ?thesis
    using assms(1) by (simp add: token_at_def)
qed

lemma strtok_words:
  assumes buf: "buf = pre @ s @ NUL # post" and s: "NUL \<notin> set s" and d: "NUL \<notin> set d"
  shows "\<exists>tok buf' pre' s'.
           strtok buf (length pre) d = Inr (tok, buf', length pre')
           \<and> buf' = pre' @ s' @ NUL # post \<and> NUL \<notin> set s'
           \<and> take (length pre + 1) buf' = take (length pre + 1) buf
           \<and> length buf' = length buf
           \<and> length pre \<le> length pre'
           \<and> (case tok of
                None \<Rightarrow> words_of d s = [] \<and> s' = []
              | Some q \<Rightarrow> \<exists>w. words_of d s = w # words_of d s' \<and> token_at buf' q w
                               \<and> q + length w \<le> length pre' \<and> NUL \<notin> set w)"
proof -
  define ds where "ds = takeWhile (\<lambda>c. c \<in> set d) s"
  define s1 where "s1 = dropWhile (\<lambda>c. c \<in> set d) s"
  define w where "w = takeWhile (\<lambda>c. c \<notin> set d) s1"
  define r where "r = dropWhile (\<lambda>c. c \<notin> set d) s1"
  have s_eq: "s = ds @ s1" and s1_eq: "s1 = w @ r"
    by (simp_all add: ds_def s1_def w_def r_def)
  have s1_sub: "set s1 \<subseteq> set s" using s_eq by auto
  have nul_s1: "NUL \<notin> set s1" using s s1_sub by auto
  have nul_w: "NUL \<notin> set w" and nul_r: "NUL \<notin> set r" using nul_s1 s1_eq by auto
  have tw1: "takeWhile (is_delim d) (drop (length pre) buf) = ds"
  proof -
    have "takeWhile (is_delim d) (s @ NUL # post) = takeWhile (is_delim d) s"
      by (rule takeWhile_stop) (simp add: is_delim_def)
    also have "\<dots> = ds"
      unfolding ds_def using s by (intro takeWhile_cong) (auto simp: is_delim_def)
    finally show ?thesis by (simp add: buf)
  qed
  have buf1: "buf = (pre @ ds) @ s1 @ NUL # post"
    by (simp add: buf s_eq)
  have words: "words_of d s = (if s1 = [] then [] else w # words_of d (tl r))"
    using words_of_unfold [of d s] by (simp add: Let_def s1_def w_def r_def)
  show ?thesis
  proof (cases "s1 = []")
    case True
    have run: "strtok buf (length pre) d = Inr (None, buf, length (pre @ ds))"
      using True tw1 by (simp add: strtok_def Let_def buf1 nth_append)
    show ?thesis
    proof (intro exI conjI)
      show "strtok buf (length pre) d = Inr (None, buf, length (pre @ ds))" by (rule run)
      show "buf = (pre @ ds) @ [] @ NUL # post" using True by (simp add: buf1)
      show "NUL \<notin> set []" by simp
      show "take (length pre + 1) buf = take (length pre + 1) buf" by simp
      show "length buf = length buf" by simp
      show "length pre \<le> length (pre @ ds)" by simp
      show "case None of
              None \<Rightarrow> words_of d s = [] \<and> [] = []
            | Some q \<Rightarrow> \<exists>w. words_of d s = w # words_of d [] \<and> token_at buf q w
                             \<and> q + length w \<le> length (pre @ ds) \<and> NUL \<notin> set w"
        using words True by simp
    qed
  next
    case False
    then obtain c cs where s1_cons: "s1 = c # cs" by (cases s1) auto
    have c_nul: "c \<noteq> NUL" using nul_s1 s1_cons by auto
    have at_s: "buf ! length (pre @ ds) = c" "length (pre @ ds) < length buf"
      by (simp_all add: buf1 s1_cons nth_append)
    have tw2: "takeWhile (in_token d) (drop (length (pre @ ds)) buf) = w"
    proof -
      have "takeWhile (in_token d) (s1 @ NUL # post) = takeWhile (in_token d) s1"
        by (rule takeWhile_stop) (simp add: in_token_def)
      also have "\<dots> = w"
        unfolding w_def using nul_s1 by (intro takeWhile_cong) (auto simp: in_token_def)
      finally show ?thesis by (simp add: buf1)
    qed
    have wne: "w \<noteq> []"
      using s1_cons hd_dropWhile [of "\<lambda>c. c \<in> set d" s] unfolding w_def s1_def [symmetric] by auto
    have buf2: "buf = (pre @ ds @ w) @ r @ NUL # post"
      by (simp add: buf1 s1_eq)
    have len_e: "length pre + length ds + length w = length (pre @ ds @ w)" by simp
    have start: "length pre + length (takeWhile (is_delim d) (drop (length pre) buf)) = length (pre @ ds)"
      by (simp add: tw1)
    show ?thesis
    proof (cases r)
      case Nil
      have at_e: "buf ! length (pre @ ds @ w) = NUL" "length (pre @ ds @ w) < length buf"
        using Nil by (simp_all add: buf2 nth_append)
      have run: "strtok buf (length pre) d = Inr (Some (length (pre @ ds)), buf, length (pre @ ds @ w))"
        using at_s at_e c_nul tw2 unfolding strtok_def start Let_def by (simp add: len_e)
      have tok: "token_at buf (length (pre @ ds)) w"
        using Nil by (simp add: token_at_def buf1 s1_eq)
      show ?thesis
      proof (intro exI conjI)
        show "strtok buf (length pre) d = Inr (Some (length (pre @ ds)), buf, length (pre @ ds @ w))"
          by (rule run)
        show "buf = (pre @ ds @ w) @ [] @ NUL # post" using Nil by (simp add: buf2)
        show "NUL \<notin> set []" by simp
        show "take (length pre + 1) buf = take (length pre + 1) buf" by simp
        show "length buf = length buf" by simp
        show "length pre \<le> length (pre @ ds @ w)" by simp
        show "case Some (length (pre @ ds)) of
                None \<Rightarrow> words_of d s = [] \<and> [] = []
              | Some q \<Rightarrow> \<exists>w'. words_of d s = w' # words_of d [] \<and> token_at buf q w'
                               \<and> q + length w' \<le> length (pre @ ds @ w) \<and> NUL \<notin> set w'"
          using words False Nil nul_w tok by (simp add: words_of_def)
      qed
    next
      case (Cons x r')
      have x_nul: "x \<noteq> NUL" using nul_r Cons by auto
      have at_e: "buf ! length (pre @ ds @ w) = x" "length (pre @ ds @ w) < length buf"
        using Cons by (simp_all add: buf2 nth_append)
      define buf' where "buf' = buf[length (pre @ ds @ w) := NUL]"
      have upd: "buf' = (pre @ ds @ w @ [NUL]) @ r' @ NUL # post"
        using Cons by (simp add: buf'_def buf2 list_update_append)
      have run: "strtok buf (length pre) d
              = Inr (Some (length (pre @ ds)), buf', length (pre @ ds @ w @ [NUL]))"
        using at_s at_e c_nul x_nul tw2 unfolding strtok_def start Let_def buf'_def
        by (simp add: len_e)
      have tok: "token_at buf' (length (pre @ ds)) w"
        by (simp add: upd token_at_def)
      have keep: "take (length pre + 1) buf' = take (length pre + 1) buf"
        unfolding buf'_def using wne by (intro take_update_cancel) (cases w, auto)
      show ?thesis
      proof (intro exI conjI)
        show "strtok buf (length pre) d
              = Inr (Some (length (pre @ ds)), buf', length (pre @ ds @ w @ [NUL]))"
          by (rule run)
        show "buf' = (pre @ ds @ w @ [NUL]) @ r' @ NUL # post" by (rule upd)
        show "NUL \<notin> set r'" using nul_r Cons by simp
        show "take (length pre + 1) buf' = take (length pre + 1) buf" by (rule keep)
        show "length buf' = length buf" by (simp add: buf'_def)
        show "length pre \<le> length (pre @ ds @ w @ [NUL])" by simp
        show "case Some (length (pre @ ds)) of
                None \<Rightarrow> words_of d s = [] \<and> r' = []
              | Some q \<Rightarrow> \<exists>w'. words_of d s = w' # words_of d r' \<and> token_at buf' q w'
                               \<and> q + length w' \<le> length (pre @ ds @ w @ [NUL]) \<and> NUL \<notin> set w'"
          using words False Cons nul_w tok by simp
      qed
    qed
  qed
qed

lemma tokenize_loop_stop:
  "\<not> (word \<noteq> None \<and> int count < limit - 1) \<Longrightarrow>
     tokenize_loop d limit word buf save tokens count = Inr (word, buf, tokens, count)"
  by (subst tokenize_loop.simps) auto

lemma tokenize_loop_step:
  "int count < limit - 1 \<Longrightarrow> count < length tokens \<Longrightarrow>
   strtok buf save d = Inr (tok, buf1, save1) \<Longrightarrow>
     tokenize_loop d limit (Some q) buf save tokens count
       = tokenize_loop d limit tok buf1 save1 (tokens[count := Some q]) (count + 1)"
  by (subst tokenize_loop.simps) simp

lemma tokenize_loop_words:
  assumes d: "NUL \<notin> set d" and room: "nat limit \<le> length tokens"
  shows "words_of d s = ws \<Longrightarrow> buf = pre @ s @ NUL # post \<Longrightarrow> NUL \<notin> set s \<Longrightarrow>
         length tokens0 = length tokens \<Longrightarrow> int count \<le> limit - 1 \<Longrightarrow>
         (case word of
            None \<Rightarrow> ws = [] \<and> pend = []
          | Some q \<Rightarrow> \<exists>w. pend = [w] \<and> token_at buf q w \<and> q + length w \<le> length pre) \<Longrightarrow>
         \<exists>word' buf' tokens' count'.
           tokenize_loop d limit word buf (length pre) tokens0 count = Inr (word', buf', tokens', count')
           \<and> count' = min (count + length (pend @ ws)) (nat (limit - 1))
           \<and> length tokens' = length tokens \<and> length buf' = length buf
           \<and> take (length pre + 1) buf' = take (length pre + 1) buf
           \<and> (\<forall>i < count. tokens' ! i = tokens0 ! i)
           \<and> (\<forall>i. count' \<le> i \<longrightarrow> tokens' ! i = tokens0 ! i)
           \<and> (\<forall>i. count \<le> i \<and> i < count' \<longrightarrow>
                  (\<exists>q. tokens' ! i = Some q \<and> token_at buf' q ((pend @ ws) ! (i - count))))"
proof (induction ws arbitrary: s buf pre tokens0 count word pend)
  case Nil
  show ?case
  proof (cases "word \<noteq> None \<and> int count < limit - 1")
    case False
    have stop: "tokenize_loop d limit word buf (length pre) tokens0 count = Inr (word, buf, tokens0, count)"
      using False by (rule tokenize_loop_stop)
    have "min (count + length (pend @ [])) (nat (limit - 1)) = count"
      using False Nil.prems(5,6) by (cases word) auto
    then show ?thesis
      using stop Nil.prems(4) by auto
  next
    case True
    then obtain q where word: "word = Some q" by auto
    from Nil.prems(6) word obtain w where
      pend: "pend = [w]" and tok: "token_at buf q w" and fit: "q + length w \<le> length pre"
      by auto
    from strtok_words [OF Nil.prems(2,3) d]
    obtain tok buf1 pre1 s1 where
      st0: "strtok buf (length pre) d = Inr (tok, buf1, length pre1)"
      and "buf1 = pre1 @ s1 @ NUL # post" and "NUL \<notin> set s1"
      and frame: "take (length pre + 1) buf1 = take (length pre + 1) buf"
      and len1: "length buf1 = length buf"
      and "length pre \<le> length pre1"
      and tk: "case tok of
                None \<Rightarrow> words_of d s = [] \<and> s1 = []
              | Some q \<Rightarrow> \<exists>w. words_of d s = w # words_of d s1 \<and> token_at buf1 q w
                               \<and> q + length w \<le> length pre1 \<and> NUL \<notin> set w"
      by (elim exE conjE) (rule that)
    have "tok = None"
      using tk Nil.prems(1) by (cases tok) auto
    with st0 have st: "strtok buf (length pre) d = Inr (None, buf1, length pre1)" by simp
    have in_range: "count < length tokens0"
      using True room Nil.prems(4) by linarith
    have "tokenize_loop d limit word buf (length pre) tokens0 count
            = tokenize_loop d limit None buf1 (length pre1) (tokens0[count := Some q]) (count + 1)"
      unfolding word using True in_range st by (intro tokenize_loop_step) auto
    also have "\<dots> = Inr (None, buf1, tokens0[count := Some q], count + 1)"
      by (rule tokenize_loop_stop) simp
    finally have run: "tokenize_loop d limit word buf (length pre) tokens0 count
            = Inr (None, buf1, tokens0[count := Some q], count + 1)" .
    have tok1: "token_at buf1 q w"
      using tok _ frame by (rule token_at_frame) (use fit in simp)
    have cnt: "min (count + length (pend @ [])) (nat (limit - 1)) = count + 1"
      using True pend by auto
    show ?thesis
      unfolding run cnt using Nil.prems(4) len1 frame tok1 pend in_range
      by (auto simp: nth_list_update le_Suc_eq)
  qed
next
  case (Cons w1 ws)
  from Cons.prems(6) obtain q w where
    word: "word = Some q" and pend: "pend = [w]"
    and tok: "token_at buf q w" and fit: "q + length w \<le> length pre"
    by (cases word) auto
  show ?case
  proof (cases "int count < limit - 1")
    case False
    have stop: "tokenize_loop d limit word buf (length pre) tokens0 count = Inr (word, buf, tokens0, count)"
      using False by (intro tokenize_loop_stop) simp
    have "min (count + length (pend @ w1 # ws)) (nat (limit - 1)) = count"
      using False Cons.prems(5) by auto
    then show ?thesis
      using stop Cons.prems(4) by auto
  next
    case True
    from strtok_words [OF Cons.prems(2,3) d]
    obtain tok buf1 pre1 s1 where
      st0: "strtok buf (length pre) d = Inr (tok, buf1, length pre1)"
      and buf1: "buf1 = pre1 @ s1 @ NUL # post" and s1: "NUL \<notin> set s1"
      and frame: "take (length pre + 1) buf1 = take (length pre + 1) buf"
      and len1: "length buf1 = length buf"
      and mono: "length pre \<le> length pre1"
      and tk: "case tok of
                None \<Rightarrow> words_of d s = [] \<and> s1 = []
              | Some q \<Rightarrow> \<exists>w. words_of d s = w # words_of d s1 \<and> token_at buf1 q w
                               \<and> q + length w \<le> length pre1 \<and> NUL \<notin> set w"
      by (elim exE conjE) (rule that)
    from tk Cons.prems(1) obtain q1 where
      tok_eq: "tok = Some q1" and ws: "words_of d s1 = ws"
      and tok1: "token_at buf1 q1 w1" and fit1: "q1 + length w1 \<le> length pre1"
      by (cases tok) auto
    from st0 tok_eq have st: "strtok buf (length pre) d = Inr (Some q1, buf1, length pre1)" by simp
    have in_range: "count < length tokens0"
      using True room Cons.prems(4) by linarith
    define tokens1 where "tokens1 = tokens0[count := Some q]"
    have step: "tokenize_loop d limit word buf (length pre) tokens0 count
            = tokenize_loop d limit (Some q1) buf1 (length pre1) tokens1 (count + 1)"
      unfolding word tokens1_def using True in_range st by (intro tokenize_loop_step) auto
    have "\<exists>word' buf' tokens' count'.
           tokenize_loop d limit (Some q1) buf1 (length pre1) tokens1 (count + 1)
             = Inr (word', buf', tokens', count')
           \<and> count' = min (count + 1 + length ([w1] @ ws)) (nat (limit - 1))
           \<and> length tokens' = length tokens \<and> length buf' = length buf1
           \<and> take (length pre1 + 1) buf' = take (length pre1 + 1) buf1
           \<and> (\<forall>i < count + 1. tokens' ! i = tokens1 ! i)
           \<and> (\<forall>i. count' \<le> i \<longrightarrow> tokens' ! i = tokens1 ! i)
           \<and> (\<forall>i. count + 1 \<le> i \<and> i < count' \<longrightarrow>
                  (\<exists>q. tokens' ! i = Some q \<and> token_at buf' q (([w1] @ ws) ! (i - (count + 1)))))"
      using True Cons.prems(4) tok1 fit1
      by (intro Cons.IH [OF ws buf1 s1]) (simp_all add: tokens1_def)
    then obtain word' buf' tokens' count' where
      run: "tokenize_loop d limit (Some q1) buf1 (length pre1) tokens1 (count + 1)
             = Inr (word', buf', tokens', count')"
      and cnt: "count' = min (count + 1 + length ([w1] @ ws)) (nat (limit - 1))"
      and lens: "length tokens' = length tokens" "length buf' = length buf1"
      and frame': "take (length pre1 + 1) buf' = take (length pre1 + 1) buf1"
      and low: "\<forall>i < count + 1. tokens' ! i = tokens1 ! i"
      and high: "\<forall>i. count' \<le> i \<longrightarrow> tokens' ! i = tokens1 ! i"
      and mid: "\<forall>i. count + 1 \<le> i \<and> i < count' \<longrightarrow>
                  (\<exists>q. tokens' ! i = Some q \<and> token_at buf' q (([w1] @ ws) ! (i - (count + 1))))"
      by blast
    have cnt_ge: "count + 1 \<le> count'"
      using cnt True by simp
    have "take (length pre + 1) (take (length pre1 + 1) buf') = take (length pre + 1) (take (length pre1 + 1) buf1)"
      by (simp only: frame')
    then have frame1: "take (length pre + 1) buf' = take (length pre + 1) buf1"
      using mono by (simp add: min_def)
    have tok': "token_at buf' q w"
    proof -
      have "token_at buf1 q w"
        using tok _ frame by (rule token_at_frame) (use fit in simp)
      then show ?thesis
        using _ frame1 by (rule token_at_frame) (use fit in simp)
    qed
    have at_count: "tokens' ! count = Some q"
      using low in_range by (simp add: tokens1_def)
    have c1: "count' = min (count + length (pend @ w1 # ws)) (nat (limit - 1))"
      using cnt pend by simp
    have c2: "\<forall>i < count. tokens' ! i = tokens0 ! i"
      using low by (simp add: tokens1_def)
    have c3: "\<forall>i. count' \<le> i \<longrightarrow> tokens' ! i = tokens0 ! i"
      using high cnt_ge by (simp add: tokens1_def)
    have c4: "\<forall>i. count \<le> i \<and> i < count' \<longrightarrow>
                  (\<exists>q. tokens' ! i = Some q \<and> token_at buf' q ((pend @ w1 # ws) ! (i - count)))"
    proof (intro allI impI)
      fix i assume i: "count \<le> i \<and> i < count'"
      show "\<exists>q. tokens' ! i = Some q \<and> token_at buf' q ((pend @ w1 # ws) ! (i - count))"
      proof (cases "i = count")
        case True
        then show ?thesis using at_count tok' pend by simp
      next
        case False
        with i have i1: "count + 1 \<le> i \<and> i < count'" by simp
        then have idx: "i - count = Suc (i - (count + 1))" by linarith
        from mid i1 show ?thesis
          unfolding idx pend by simp
      qed
    qed
    show ?thesis
      unfolding step run using c1 c2 c3 c4 lens len1 frame1 frame by simp
  qed
qed


lemma split_runs_chars: "w \<in> set (split_runs d run s) \<Longrightarrow> set w \<subseteq> set run \<union> set s"
proof (induction s arbitrary: run)
  case Nil
  then show ?case by (auto split: if_splits)
next
  case (Cons c cs)
  then show ?case by (fastforce split: if_splits)
qed

lemma words_of_chars: "w \<in> set (words_of d s) \<Longrightarrow> set w \<subseteq> set s"
  using split_runs_chars [of w d "[]" s] by (simp add: words_of_def)

lemma words_of_Nil [simp]: "words_of d [] = []"
  by (simp add: words_of_def)

lemma tokenize_words:
  assumes buf: "buf = pre @ s @ NUL # post" and s: "NUL \<notin> set s" and d: "NUL \<notin> set d"
    and limit: "1 \<le> limit" and room: "nat limit \<le> length tokens"
  shows "\<exists>r. tokenize buf (length pre) d tokens limit = Inr r
           \<and> tk_count r = min (length (words_of d s)) (nat (limit - 1))
           \<and> tk_ret r = (if int (length (words_of d s)) < limit - 1 then 0 else - 1)
           \<and> length (tk_tokens r) = length tokens
           \<and> length (tk_buf r) = length buf
           \<and> take (length pre + 1) (tk_buf r) = take (length pre + 1) buf
           \<and> (\<forall>i < tk_count r. \<exists>q. tk_tokens r ! i = Some q
                                      \<and> token_at (tk_buf r) q (words_of d s ! i))
           \<and> tk_tokens r ! tk_count r = None
           \<and> (\<forall>i. tk_count r < i \<longrightarrow> tk_tokens r ! i = tokens ! i)"
proof -
  from strtok_words [OF buf s d]
  obtain tok buf1 pre1 s1 where
    st: "strtok buf (length pre) d = Inr (tok, buf1, length pre1)"
    and buf1: "buf1 = pre1 @ s1 @ NUL # post" and s1: "NUL \<notin> set s1"
    and frame: "take (length pre + 1) buf1 = take (length pre + 1) buf"
    and len1: "length buf1 = length buf"
    and mono: "length pre \<le> length pre1"
    and tk: "case tok of
              None \<Rightarrow> words_of d s = [] \<and> s1 = []
            | Some q \<Rightarrow> \<exists>w. words_of d s = w # words_of d s1 \<and> token_at buf1 q w
                             \<and> q + length w \<le> length pre1 \<and> NUL \<notin> set w"
    by (elim exE conjE) (rule that)
  define pend where "pend = (case tok of None \<Rightarrow> [] | Some q \<Rightarrow> [hd (words_of d s)])"
  have all: "pend @ words_of d s1 = words_of d s"
    using tk by (cases tok) (auto simp: pend_def)
  have pending: "case tok of
            None \<Rightarrow> words_of d s1 = [] \<and> pend = []
          | Some q \<Rightarrow> \<exists>w. pend = [w] \<and> token_at buf1 q w \<and> q + length w \<le> length pre1"
    using tk by (cases tok) (auto simp: pend_def)
  have "\<exists>word' buf' tokens' count'.
           tokenize_loop d limit tok buf1 (length pre1) tokens 0 = Inr (word', buf', tokens', count')
           \<and> count' = min (0 + length (pend @ words_of d s1)) (nat (limit - 1))
           \<and> length tokens' = length tokens \<and> length buf' = length buf1
           \<and> take (length pre1 + 1) buf' = take (length pre1 + 1) buf1
           \<and> (\<forall>i < 0. tokens' ! i = tokens ! i)
           \<and> (\<forall>i. count' \<le> i \<longrightarrow> tokens' ! i = tokens ! i)
           \<and> (\<forall>i. 0 \<le> i \<and> i < count' \<longrightarrow>
                  (\<exists>q. tokens' ! i = Some q \<and> token_at buf' q ((pend @ words_of d s1) ! (i - 0))))"
    using limit pending by (intro tokenize_loop_words [OF d room refl buf1 s1]) simp_all
  then obtain word' buf' tokens' count' where
    run: "tokenize_loop d limit tok buf1 (length pre1) tokens 0 = Inr (word', buf', tokens', count')"
    and cnt: "count' = min (length (words_of d s)) (nat (limit - 1))"
    and lens: "length tokens' = length tokens" "length buf' = length buf1"
    and frame': "take (length pre1 + 1) buf' = take (length pre1 + 1) buf1"
    and high: "\<forall>i. count' \<le> i \<longrightarrow> tokens' ! i = tokens ! i"
    and mid: "\<forall>i. i < count' \<longrightarrow> (\<exists>q. tokens' ! i = Some q \<and> token_at buf' q (words_of d s ! i))"
    unfolding all by auto
  have in_range: "count' < length tokens'"
    using cnt limit room lens by auto
  have "take (length pre + 1) (take (length pre1 + 1) buf') = take (length pre + 1) (take (length pre1 + 1) buf1)"
    by (simp only: frame')
  then have frame1: "take (length pre + 1) buf' = take (length pre + 1) buf"
    using mono frame by (simp add: min_def)
  define r where "r = \<lparr>tk_ret = (if int count' < limit - 1 then 0 else - 1), tk_buf = buf',
                        tk_tokens = tokens'[count' := None], tk_count = count'\<rparr>"
  have res: "tokenize buf (length pre) d tokens limit = Inr r"
    using st run in_range by (simp add: tokenize_def r_def)
  have ret: "tk_ret r = (if int (length (words_of d s)) < limit - 1 then 0 else - 1)"
    using cnt limit by (auto simp: r_def)
  show ?thesis
  proof (intro exI conjI)
    show "tokenize buf (length pre) d tokens limit = Inr r" by (rule res)
    show "tk_count r = min (length (words_of d s)) (nat (limit - 1))" by (simp add: r_def cnt)
    show "tk_ret r = (if int (length (words_of d s)) < limit - 1 then 0 else - 1)" by (rule ret)
    show "length (tk_tokens r) = length tokens" by (simp add: r_def lens)
    show "length (tk_buf r) = length buf" by (simp add: r_def lens len1)
    show "take (length pre + 1) (tk_buf r) = take (length pre + 1) buf" using frame1 by (simp add: r_def)
    show "\<forall>i < tk_count r. \<exists>q. tk_tokens r ! i = Some q \<and> token_at (tk_buf r) q (words_of d s ! i)"
      using mid by (simp add: r_def)
    show "tk_tokens r ! tk_count r = None" using in_range by (simp add: r_def)
    show "\<forall>i. tk_count r < i \<longrightarrow> tk_tokens r ! i = tokens ! i" using high by (simp add: r_def)
  qed
qed


lemma token_at_read_str:
  "token_at buf q w \<Longrightarrow> NUL \<notin> set w \<Longrightarrow> read_str buf (Some q) = Inr w"
  by (simp add: read_str_def token_at_terminated token_at_c_str)

section \<open>The tokenizer's contract\<close>

text \<open>
  C4. A string with \<open>N\<close> words, \<open>N\<close> below the capacity, in an array with at least
  capacity cells: \<^verbatim>\<open>tokenize\<close> returns, the count is \<open>N\<close>, the first \<open>N\<close> cells point
  to strings that read as the words of the input, in order, and cell \<open>N\<close> is null.
  The string has no words exactly when all its characters are delimiters (the empty
  string among them); then the count is 0 and cell 0 is null.
\<close>

theorem tokenize_fewer_than_capacity:
  assumes "buf = pre @ string @ NUL # post"
    and "NUL \<notin> set string" and "NUL \<notin> set delimiter"
    and "int (length (words_of delimiter string)) < capacity"
    and "nat capacity \<le> length tokens"
  shows "\<exists>r. tokenize buf (length pre) delimiter tokens capacity = Inr r
           \<and> tk_count r = length (words_of delimiter string)
           \<and> map (read_str (tk_buf r)) (take (tk_count r) (tk_tokens r))
               = map Inr (words_of delimiter string)
           \<and> tk_tokens r ! tk_count r = None
           \<and> (words_of delimiter string = [] \<longleftrightarrow> set string \<subseteq> set delimiter)"
proof -
  define ws where "ws = words_of delimiter string"
  have limit: "1 \<le> capacity" using assms(4) by linarith
  from tokenize_words [OF assms(1,2,3) limit assms(5)]
  obtain r where
    run: "tokenize buf (length pre) delimiter tokens capacity = Inr r"
    and cnt: "tk_count r = min (length ws) (nat (capacity - 1))"
    and len: "length (tk_tokens r) = length tokens"
    and toks: "\<forall>i < tk_count r. \<exists>q. tk_tokens r ! i = Some q \<and> token_at (tk_buf r) q (ws ! i)"
    and stop: "tk_tokens r ! tk_count r = None"
    unfolding ws_def by blast
  have cnt': "tk_count r = length ws"
    using cnt assms(4) by (simp add: ws_def)
  have strs: "map (read_str (tk_buf r)) (take (tk_count r) (tk_tokens r)) = map Inr ws"
  proof (rule nth_equalityI)
    show "length (map (read_str (tk_buf r)) (take (tk_count r) (tk_tokens r))) = length (map Inr ws)"
      using cnt' len assms(4,5) by (simp add: ws_def)
  next
    fix i assume "i < length (map (read_str (tk_buf r)) (take (tk_count r) (tk_tokens r)))"
    then have i: "i < tk_count r" "i < length (tk_tokens r)" by simp_all
    from toks i obtain q where q: "tk_tokens r ! i = Some q" "token_at (tk_buf r) q (ws ! i)"
      by blast
    have "ws ! i \<in> set ws" using i cnt' by simp
    then have "NUL \<notin> set (ws ! i)"
      using words_of_chars [of "ws ! i" delimiter string] assms(2) by (auto simp: ws_def)
    then have "read_str (tk_buf r) (Some q) = Inr (ws ! i)"
      using q(2) by (intro token_at_read_str)
    then show "map (read_str (tk_buf r)) (take (tk_count r) (tk_tokens r)) ! i = map Inr ws ! i"
      using i q(1) cnt' by simp
  qed
  have empty: "ws = [] \<longleftrightarrow> set string \<subseteq> set delimiter"
  proof -
    have "ws = [] \<longleftrightarrow> dropWhile (\<lambda>c. c \<in> set delimiter) string = []"
      unfolding ws_def by (subst words_of_unfold) (simp add: Let_def)
    then show ?thesis by (auto simp: dropWhile_eq_Nil_conv)
  qed
  show ?thesis
    using run cnt' strs stop empty unfolding ws_def by blast
qed

theorem tokenize_fewer_than_capacity_witness:
  "\<exists>r. tokenize (''ls -l'' @ NUL # []) (length ([] :: char list)) '' '' [None, None, None, None] 4 = Inr r
         \<and> tk_count r = 2
         \<and> map (read_str (tk_buf r)) (take (tk_count r) (tk_tokens r)) = [Inr ''ls'', Inr ''-l'']
         \<and> tk_tokens r ! tk_count r = None"
  using tokenize_fewer_than_capacity [of "''ls -l'' @ NUL # []" "[]" "''ls -l''" "[]" "'' ''" 4
          "[None, None, None, None]"]
  by (simp add: words_of_def NUL_def numeral_2_eq_2)

text \<open>
  C3. A string with two words and a capacity of three: both words are stored, the
  null cell behind them is the third cell, nothing is cut off, and \<^verbatim>\<open>tokenize\<close>
  returns -1 all the same. The loop stops at \<open>limit - 1\<close> tokens whether or not a
  word is left, and the return value tests the count, not the word.
\<close>

theorem tokenize_exactly_fits:
  "tokenize (''a b'' @ [NUL]) 0 '' '' [None, None, None] 3
     = Inr \<lparr>tk_ret = - 1, tk_buf = ''a'' @ [NUL] @ ''b'' @ [NUL],
            tk_tokens = [Some 0, Some 2, None], tk_count = 2\<rparr>"
  by (simp add: tokenize_def strtok_def tokenize_loop.simps is_delim_def in_token_def NUL_def Let_def)


section \<open>What cd computes\<close>

lemma cd_build_state:
  "cd_build rooted path n s = Inr (new_path, s') \<Longrightarrow>
     cwd s' = cwd s \<and> env s' = env s \<and> err s' = err s \<and> calls s' = calls s"
  by (auto simp: cd_build_def Let_def split: option.splits sum.splits if_splits)

lemma cd_path_state:
  "cd_path buf given_path s = Inr (new_path, buf', s') \<Longrightarrow>
     cwd s' = cwd s \<and> env s' = env s \<and> err s' = err s \<and> calls s' = calls s"
  by (auto simp: cd_path_def Let_def split: option.splits sum.splits if_splits dest: cd_build_state)


lemma NUL_not_slash [simp]: "NUL \<notin> set ''/''"
  by (simp add: NUL_def)

lemma cd_path_string:
  assumes buf: "buf = pre @ a @ NUL # post" and a: "NUL \<notin> set a"
  shows "\<exists>buf'. cd_path buf (Some (length pre)) s =
           (case cd_build (a \<noteq> [] \<and> hd a = CHR ''/'') (path_cells a)
                   (min (length (words_of ''/'' a)) (BIG_NUM - 1)) s of
              Inl f \<Rightarrow> Inl f
            | Inr (new_path, s') \<Rightarrow> Inr (new_path, buf', s'))"
proof -
  define ws where "ws = words_of ''/'' a"
  have limit: "1 \<le> int BIG_NUM" by (simp add: BIG_NUM_def)
  have room: "nat (int BIG_NUM) \<le> length (replicate PATH_MAX (None :: nat option))"
    by (simp add: BIG_NUM_def PATH_MAX_def)
  from tokenize_words [OF buf a NUL_not_slash limit room]
  obtain r where
    run: "tokenize buf (length pre) ''/'' (replicate PATH_MAX None) (int BIG_NUM) = Inr r"
    and cnt: "tk_count r = min (length ws) (nat (int BIG_NUM - 1))"
    and len: "length (tk_tokens r) = length (replicate PATH_MAX (None :: nat option))"
    and toks: "\<forall>i < tk_count r. \<exists>q. tk_tokens r ! i = Some q \<and> token_at (tk_buf r) q (ws ! i)"
    and stop: "tk_tokens r ! tk_count r = None"
    and rest: "\<forall>i. tk_count r < i \<longrightarrow> tk_tokens r ! i = replicate PATH_MAX None ! i"
    unfolding ws_def by blast
  have cnt': "tk_count r = min (length ws) (BIG_NUM - 1)"
    using cnt by (simp add: BIG_NUM_def)
  have cnt_small: "tk_count r < PATH_MAX"
    using cnt' by (simp add: BIG_NUM_def PATH_MAX_def)
  have segs: "take (BIG_NUM - 1) ws = take (tk_count r) ws"
    using cnt' by (simp add: min_def)
  have pc: "path_cells a = map Some (take (tk_count r) ws) @ replicate (PATH_MAX - tk_count r) None"
    using cnt' by (simp add: path_cells_def Let_def ws_def [symmetric] min_def)
  have ltk: "length (map Some (take (tk_count r) ws)) = tk_count r"
    using cnt' by simp
  have cells: "map (map_option (c_str (tk_buf r))) (tk_tokens r) = path_cells a"
  proof (rule nth_equalityI)
    show "length (map (map_option (c_str (tk_buf r))) (tk_tokens r)) = length (path_cells a)"
      unfolding pc using len cnt_small ltk by simp
  next
    fix i assume "i < length (map (map_option (c_str (tk_buf r))) (tk_tokens r))"
    then have i: "i < length (tk_tokens r)" "i < PATH_MAX" using len by simp_all
    consider "i < tk_count r" | "i = tk_count r" | "tk_count r < i" by linarith
    then have "map_option (c_str (tk_buf r)) (tk_tokens r ! i) = path_cells a ! i"
    proof cases
      case 1
      from toks 1 obtain q where q: "tk_tokens r ! i = Some q" "token_at (tk_buf r) q (ws ! i)"
        by blast
      have "ws ! i \<in> set ws" using 1 cnt' by simp
      then have "NUL \<notin> set (ws ! i)"
        using words_of_chars [of "ws ! i" "''/''" a] a by (auto simp: ws_def)
      then have "c_str (tk_buf r) q = ws ! i"
        using q(2) by (intro token_at_c_str)
      moreover have "path_cells a ! i = Some (ws ! i)"
        unfolding pc using 1 ltk cnt' by (simp add: nth_append)
      ultimately show ?thesis
        using q(1) by simp
    next
      case 2
      have "path_cells a ! i = replicate (PATH_MAX - tk_count r) None ! (i - tk_count r)"
        unfolding pc using 2 ltk by (simp add: nth_append)
      also have "\<dots> = None"
        using 2 i(2) by simp
      finally show ?thesis
        using stop 2 by simp
    next
      case 3
      have "path_cells a ! i = replicate (PATH_MAX - tk_count r) None ! (i - tk_count r)"
        unfolding pc using 3 ltk by (simp add: nth_append)
      also have "\<dots> = None"
        using 3 i(2) by simp
      finally show ?thesis
        using rest 3 i(2) by simp
    qed
    then show "map (map_option (c_str (tk_buf r))) (tk_tokens r) ! i = path_cells a ! i"
      using i(1) by simp
  qed
  have first: "buf ! length pre = CHR ''/'' \<longleftrightarrow> a \<noteq> [] \<and> hd a = CHR ''/''"
    by (cases a) (simp_all add: buf nth_append NUL_def)
  have inside: "\<not> length buf \<le> length pre"
    by (simp add: buf)
  have "cd_path buf (Some (length pre)) s =
           (case cd_build (a \<noteq> [] \<and> hd a = CHR ''/'') (path_cells a)
                   (min (length (words_of ''/'' a)) (BIG_NUM - 1)) s of
              Inl f \<Rightarrow> Inl f
            | Inr (new_path, s') \<Rightarrow> Inr (new_path, tk_buf r, s'))"
    using inside run first cells cnt' by (simp add: cd_path_def Let_def ws_def)
  then show ?thesis by blast
qed


lemmas cd_eval =
  cd_build_def path_cells_def words_of_def BIG_NUM_def PATH_MAX_def cd_append.simps
  strcpy_path_def strcat_path_def getcwd_def read_array_def

lemma cd_append_cells:
  "k = n - i \<Longrightarrow> i \<le> n \<Longrightarrow> n \<le> length segs \<Longrightarrow> n \<le> length path \<Longrightarrow>
   (\<forall>j < n. path ! j = Some (segs ! j)) \<Longrightarrow>
   length new_path + length (appended (drop i (take n segs))) < PATH_MAX \<Longrightarrow>
     cd_append path n i new_path = Inr (new_path @ appended (drop i (take n segs)))"
proof (induction k arbitrary: i new_path)
  case 0
  then have "i = n" by simp
  then show ?case
    using "0.prems"(3) by (subst cd_append.simps) (simp add: appended_def)
next
  case (Suc k)
  then have i: "i < n" by simp
  have len: "length (take n segs) = n"
    using Suc.prems(3) by simp
  have split: "drop i (take n segs) = segs ! i # drop (Suc i) (take n segs)"
    using i len by (metis Cons_nth_drop_Suc nth_take)
  have app: "appended (drop i (take n segs)) = (CHR ''/'' # segs ! i) @ appended (drop (Suc i) (take n segs))"
    by (simp add: split appended_def)
  have cell: "path ! i = Some (segs ! i)"
    using Suc.prems(5) i by simp
  have fits: "length new_path + 1 < PATH_MAX" "length (new_path @ ''/'') + length (segs ! i) < PATH_MAX"
    using Suc.prems(6) by (simp_all add: app)
  have step: "cd_append path n i new_path = cd_append path n (Suc i) ((new_path @ ''/'') @ segs ! i)"
    using i Suc.prems(4) cell fits by (subst cd_append.simps) (simp add: strcat_path_def)
  have "cd_append path n (Suc i) ((new_path @ ''/'') @ segs ! i)
          = Inr (((new_path @ ''/'') @ segs ! i) @ appended (drop (Suc i) (take n segs)))"
    using Suc.prems i by (intro Suc.IH) (simp_all add: app)
  then show ?case
    by (simp add: step app)
qed

lemma cd_succeeds:
  assumes "cd_path buf given_path s = Inr (new_path, buf', s1)"
    and "chdir_res os (cwd s) new_path = Inr d"
    and "getcwd s = Some cur"
    and "setenv_res os ''OLDPWD'' cur = None"
    and "setenv_res os ''PWD'' new_path = None"
  shows "cd os buf given_path s =
           Inr (buf', s1\<lparr>cwd := d, env := (env s)(''OLDPWD'' \<mapsto> cur, ''PWD'' \<mapsto> new_path),
                         calls := calls s @ [Chdir new_path, Setenv ''OLDPWD'' cur,
                                             Setenv ''PWD'' new_path]\<rparr>)"
proof -
  have same: "cwd s1 = cwd s" "env s1 = env s" "err s1 = err s" "calls s1 = calls s"
    using cd_path_state [OF assms(1)] by simp_all
  have cur1: "getcwd s1 = Some cur"
    using assms(3) same(1) by (simp add: getcwd_def split: if_splits)
  show ?thesis
    using assms(1,2,4,5) same cur1
    by (simp add: cd_def cd_apply_def Let_def read_array_def)
qed

lemma cd_apply_no_null: "cd_apply os new_path s \<noteq> Inl NullDeref"
  by (simp add: cd_apply_def Let_def read_array_def split: sum.splits option.splits)

lemma cd_append_no_null:
  "(\<And>j. j < n \<Longrightarrow> path ! j \<noteq> None) \<Longrightarrow> cd_append path n i new_path \<noteq> Inl NullDeref"
proof (induction path n i new_path rule: cd_append.induct)
  case (1 path path_count i new_path)
  show ?case
  proof (cases "i < path_count \<and> \<not> length path \<le> i")
    case False
    then show ?thesis by (subst cd_append.simps) auto
  next
    case True
    then obtain seg where seg: "path ! i = Some seg" using "1.prems" by auto
    show ?thesis
    proof (cases "length new_path + 1 < PATH_MAX")
      case False
      then show ?thesis using True by (subst cd_append.simps) (simp add: strcat_path_def)
    next
      case fits1: True
      show ?thesis
      proof (cases "length (new_path @ ''/'') + length seg < PATH_MAX")
        case False
        then show ?thesis
          using True fits1 seg by (subst cd_append.simps) (simp add: strcat_path_def)
      next
        case fits2: True
        have "cd_append path path_count i new_path
                = cd_append path path_count (i + 1) ((new_path @ ''/'') @ seg)"
          using True fits1 fits2 seg by (subst cd_append.simps) (simp add: strcat_path_def)
        moreover have "cd_append path path_count (i + 1) ((new_path @ ''/'') @ seg) \<noteq> Inl NullDeref"
          using True fits1 fits2 seg "1.prems"
          by (intro "1.IH" [of "new_path @ ''/''" "(new_path @ ''/'') @ seg"])
             (simp_all add: strcat_path_def)
        ultimately show ?thesis by simp
      qed
    qed
  qed
qed

lemma path_cells_nth:
  "i < min (length (words_of ''/'' a)) (BIG_NUM - 1) \<Longrightarrow> path_cells a ! i = Some (words_of ''/'' a ! i)"
  by (simp add: path_cells_def Let_def nth_append)

lemma path_cells_length: "length (path_cells a) = PATH_MAX"
  by (simp add: path_cells_def Let_def BIG_NUM_def PATH_MAX_def)



section \<open>What an iteration does with a cd line\<close>

lemma token_at_split:
  assumes "token_at buf q w"
  shows "\<exists>pre post. buf = pre @ w @ NUL # post \<and> length pre = q"
proof -
  have t: "take (length w + 1) (drop q buf) = w @ [NUL]"
    using assms by (simp add: token_at_def)
  have "length (take (length w + 1) (drop q buf)) = length w + 1"
    by (simp only: t) simp
  then have q: "q \<le> length buf" by (cases "q \<le> length buf") auto
  have "buf = take q buf @ drop q buf" by simp
  also have "drop q buf = take (length w + 1) (drop q buf) @ drop (length w + 1) (drop q buf)"
    by (simp only: append_take_drop_id)
  also have "\<dots> = w @ NUL # drop (length w + 1) (drop q buf)"
    by (simp only: t) simp
  finally have "buf = take q buf @ w @ NUL # drop (length w + 1) (drop q buf)" .
  moreover have "length (take q buf) = q" using q by simp
  ultimately show ?thesis by blast
qed

lemma cd_string_only:
  assumes "token_at buf q a" and "NUL \<notin> set a"
  shows "map_sum id snd (cd os buf (Some q) s) = map_sum id snd (cd os (a @ [NUL]) (Some 0) s)"
proof -
  from token_at_split [OF assms(1)]
  obtain pre post where buf: "buf = pre @ a @ NUL # post" and q: "length pre = q" by blast
  from cd_path_string [OF buf assms(2), of s]
  obtain b1 where
    p1: "cd_path buf (Some q) s =
           (case cd_build (a \<noteq> [] \<and> hd a = CHR ''/'') (path_cells a)
                   (min (length (words_of ''/'' a)) (BIG_NUM - 1)) s of
              Inl f \<Rightarrow> Inl f
            | Inr (new_path, s') \<Rightarrow> Inr (new_path, b1, s'))"
    unfolding q by blast
  from cd_path_string [of "a @ [NUL]" "[]" a "[]" s] assms(2)
  obtain b2 where
    p2: "cd_path (a @ [NUL]) (Some 0) s =
           (case cd_build (a \<noteq> [] \<and> hd a = CHR ''/'') (path_cells a)
                   (min (length (words_of ''/'' a)) (BIG_NUM - 1)) s of
              Inl f \<Rightarrow> Inl f
            | Inr (new_path, s') \<Rightarrow> Inr (new_path, b2, s'))"
    by auto
  show ?thesis
    unfolding cd_def p1 p2 by (simp split: sum.splits prod.splits)
qed

lemma shell_iteration_cd:
  assumes line: "NUL \<notin> set line"
    and ws: "words_of [CHR '' '', CHR 0x0A] line = ''cd'' # a # rest"
    and few: "length rest + 2 < BIG_NUM - 1"
    and cells: "length command_args = BIG_NUM"
  shows "map_sum id fst (shell_iteration os line command_args s) =
           (case read_array (getcwd s) of
              Inl f \<Rightarrow> Inl f
            | Inr cur \<Rightarrow>
                (case env s ''HOME'' of
                   None \<Rightarrow> Inl NullDeref
                 | Some h \<Rightarrow>
                     let s1 = s\<lparr>out := out s @ prompt_text
                                 (case pw_name os of Some n \<Rightarrow> n | None \<Rightarrow> ''ERROR'') (hostname os)
                                 (if cur = h then ''~'' else cur)
                                 (if (case pw_name os of Some n \<Rightarrow> n | None \<Rightarrow> ''ERROR'') \<noteq> ''root''
                                  then CHR ''%'' else CHR ''#'')\<rparr>
                     in if PATH_MAX < length a then
                          Inr (Continue (s1\<lparr>err := err s1 @ [Message ''ERROR: Path Invalid: too long'']\<rparr>))
                        else
                          (case cd os (a @ [NUL]) (Some 0) s1 of
                             Inl f \<Rightarrow> Inl f
                           | Inr (buf', s') \<Rightarrow> Inr (Continue s'))))"
proof (cases "getcwd s")
  case None
  then show ?thesis
    by (simp add: shell_iteration_def read_array_def)
next
  case (Some cur)
  note cur = this
  show ?thesis
  proof (cases "env s ''HOME''")
    case None
    then show ?thesis
      using cur by (simp add: shell_iteration_def read_array_def)
  next
    case (Some h)
    define s1 where "s1 = s\<lparr>out := out s @ prompt_text
                                 (case pw_name os of Some n \<Rightarrow> n | None \<Rightarrow> ''ERROR'') (hostname os)
                                 (if cur = h then ''~'' else cur)
                                 (if (case pw_name os of Some n \<Rightarrow> n | None \<Rightarrow> ''ERROR'') \<noteq> ''root''
                                  then CHR ''%'' else CHR ''#'')\<rparr>"
    define delim where "delim = [CHR '' '', CHR 0x0A]"
    have buf: "line @ [NUL] = [] @ line @ NUL # []" by simp
    have limit: "1 \<le> int BIG_NUM" by (simp add: BIG_NUM_def)
    have room: "nat (int BIG_NUM) \<le> length command_args"
      by (simp add: cells)
    have nd: "NUL \<notin> set delim" by (simp add: delim_def NUL_def)
    from tokenize_words [OF buf line nd limit room]
    obtain r where
      run: "tokenize (line @ [NUL]) 0 delim command_args (int BIG_NUM) = Inr r"
      and cnt: "tk_count r = min (length (words_of delim line)) (nat (int BIG_NUM - 1))"
      and ret: "tk_ret r = (if int (length (words_of delim line)) < int BIG_NUM - 1 then 0 else - 1)"
      and toks: "\<forall>i < tk_count r. \<exists>q. tk_tokens r ! i = Some q
                    \<and> token_at (tk_buf r) q (words_of delim line ! i)"
      by auto
    have wl: "words_of delim line = ''cd'' # a # rest"
      using ws by (simp add: delim_def)
    have cnt': "tk_count r = length rest + 2"
      using cnt few wl by (simp add: BIG_NUM_def)
    have ret': "tk_ret r = 0"
      using ret few wl by (simp add: BIG_NUM_def)
    have "0 < tk_count r" and "1 < tk_count r"
      using cnt' by simp_all
    with toks obtain q0 q1 where
      t0: "tk_tokens r ! 0 = Some q0 \<and> token_at (tk_buf r) q0 (words_of delim line ! 0)"
      and t1: "tk_tokens r ! 1 = Some q1 \<and> token_at (tk_buf r) q1 (words_of delim line ! 1)"
      by blast
    have q0: "tk_tokens r ! 0 = Some q0" "token_at (tk_buf r) q0 ''cd''"
      using t0 wl by simp_all
    have q1: "tk_tokens r ! 1 = Some q1" "token_at (tk_buf r) q1 a"
      using t1 wl by simp_all
    have na: "NUL \<notin> set a"
      using words_of_chars [of a delim line] wl line by auto
    have r0: "read_str (tk_buf r) (Some q0) = Inr ''cd''"
      using q0(2) by (intro token_at_read_str) (simp_all add: NUL_def)
    have r1: "read_str (tk_buf r) (Some q1) = Inr a"
      using q1(2) na by (intro token_at_read_str)
    have disp: "dispatch os (tk_buf r) (tk_tokens r) (tk_count r) s1 =
                  (if PATH_MAX < length a then
                     Inr (Continue (s1\<lparr>err := err s1 @ [Message ''ERROR: Path Invalid: too long'']\<rparr>))
                   else
                     (case cd os (tk_buf r) (Some q1) s1 of
                        Inl f \<Rightarrow> Inl f
                      | Inr (input', s') \<Rightarrow> Inr (Continue s')))"
      using q0(1) q1(1) r0 r1 cnt' by (simp add: dispatch_def Let_def)
    have it: "shell_iteration os line command_args s =
                (case dispatch os (tk_buf r) (tk_tokens r) (tk_count r) s1 of
                   Inl f \<Rightarrow> Inl f
                 | Inr (Continue s3) \<Rightarrow>
                     Inr (Continue s3, fold (\<lambda>i a. a[i := None]) [0..<tk_count r] (tk_tokens r))
                 | Inr (Exited status s3) \<Rightarrow> Inr (Exited status s3, tk_tokens r)
                 | Inr (Replaced file argv s3) \<Rightarrow> Inr (Replaced file argv s3, tk_tokens r))"
      using cur Some run ret'
      by (simp add: shell_iteration_def read_array_def Let_def s1_def [symmetric] delim_def [symmetric])
    show ?thesis
    proof (cases "PATH_MAX < length a")
      case True
      then show ?thesis
        using cur Some
        by (simp add: it disp read_array_def Let_def s1_def [symmetric])
    next
      case False
      show ?thesis
      proof (cases "cd os (tk_buf r) (Some q1) s1")
        case (Inl f)
        with cd_string_only [OF q1(2) na, of os s1] have "cd os (a @ [NUL]) (Some 0) s1 = Inl f"
          by (cases "cd os (a @ [NUL]) (Some 0) s1") auto
        then show ?thesis
          using cur Some False Inl
          by (simp add: it disp read_array_def Let_def s1_def [symmetric])
      next
        case (Inr bs)
        obtain b s4 where bs: "bs = (b, s4)" by (cases bs)
        with cd_string_only [OF q1(2) na, of os s1] Inr obtain b' where
          other: "cd os (a @ [NUL]) (Some 0) s1 = Inr (b', s4)"
          by (cases "cd os (a @ [NUL]) (Some 0) s1") auto
        show ?thesis
          using cur Some False Inr bs other
          by (simp add: it disp read_array_def Let_def s1_def [symmetric])
      qed
    qed
  qed
qed

lemma shell_iteration_cd_tmp:
  assumes "cwd s = ''/home/u''" and "env s ''HOME'' = Some h" and "length command_args = BIG_NUM"
    and "chdir_res os ''/home/u'' ''//tmp'' = Inr d"
    and "setenv_res os ''OLDPWD'' ''/home/u'' = None" and "setenv_res os ''PWD'' ''//tmp'' = None"
  shows "\<exists>s' args'. shell_iteration os (''cd /tmp'' @ [CHR 0x0A]) command_args s = Inr (Continue s', args')
           \<and> cwd s' = d
           \<and> env s' = (env s)(''OLDPWD'' \<mapsto> ''/home/u'', ''PWD'' \<mapsto> ''//tmp'')
           \<and> calls s' = calls s @ [Chdir ''//tmp'', Setenv ''OLDPWD'' ''/home/u'',
                                    Setenv ''PWD'' ''//tmp'']"
proof -
  define s1 where "s1 = s\<lparr>out := out s @ prompt_text
                                 (case pw_name os of Some n \<Rightarrow> n | None \<Rightarrow> ''ERROR'') (hostname os)
                                 (if ''/home/u'' = h then ''~'' else ''/home/u'')
                                 (if (case pw_name os of Some n \<Rightarrow> n | None \<Rightarrow> ''ERROR'') \<noteq> ''root''
                                  then CHR ''%'' else CHR ''#'')\<rparr>"
  have cur: "getcwd s = Some ''/home/u''" and cur1: "getcwd s1 = Some ''/home/u''"
    using assms(1) by (simp_all add: getcwd_def PATH_MAX_def s1_def)
  have obs: "map_sum id fst (shell_iteration os (''cd /tmp'' @ [CHR 0x0A]) command_args s) =
          (case cd os (''/tmp'' @ [NUL]) (Some 0) s1 of
             Inl f \<Rightarrow> Inl f
           | Inr (buf', s') \<Rightarrow> Inr (Continue s'))"
    using shell_iteration_cd [of "''cd /tmp'' @ [CHR 0x0A]" "''/tmp''" "[]" command_args os s]
          assms(2,3) cur
    by (simp add: words_of_def NUL_def BIG_NUM_def PATH_MAX_def read_array_def s1_def)
  from cd_path_string [of "''/tmp'' @ [NUL]" "[]" "''/tmp''" "[]" s1]
  obtain buf' where
    path: "cd_path (''/tmp'' @ [NUL]) (Some 0) s1 = Inr (''//tmp'', buf', s1)"
    by (auto simp: cd_eval NUL_def)
  have ok: "chdir_res os (cwd s1) ''//tmp'' = Inr d"
    using assms(1,4) by (simp add: s1_def)
  have run: "cd os (''/tmp'' @ [NUL]) (Some 0) s1 =
               Inr (buf', s1\<lparr>cwd := d, env := (env s1)(''OLDPWD'' \<mapsto> ''/home/u'', ''PWD'' \<mapsto> ''//tmp''),
                         calls := calls s1 @ [Chdir ''//tmp'', Setenv ''OLDPWD'' ''/home/u'',
                                             Setenv ''PWD'' ''//tmp'']\<rparr>)"
    by (rule cd_succeeds [OF path ok cur1 assms(5,6)])
  from obs run obtain args' where
    "shell_iteration os (''cd /tmp'' @ [CHR 0x0A]) command_args s =
       Inr (Continue (s1\<lparr>cwd := d, env := (env s1)(''OLDPWD'' \<mapsto> ''/home/u'', ''PWD'' \<mapsto> ''//tmp''),
                         calls := calls s1 @ [Chdir ''//tmp'', Setenv ''OLDPWD'' ''/home/u'',
                                             Setenv ''PWD'' ''//tmp'']\<rparr>), args')"
    by (cases "shell_iteration os (''cd /tmp'' @ [CHR 0x0A]) command_args s") auto
  then show ?thesis
    by (simp add: s1_def)
qed

lemma example_accepts_tmp:
  "chdir_res example_os ''/home/u'' ''//tmp'' = Inr ''/tmp''"
  "setenv_res example_os name v = None"
  by (simp_all add: example_os_def example_chdir_def words_of_def)

lemma split_runs_repeated:
  "split_runs [CHR '' '', CHR 0x0A] run (concat (replicate n '' x'') @ [CHR 0x0A])
     = (if run = [] then [] else [run]) @ replicate n ''x''"
  by (induction n arbitrary: run) simp_all

lemma words_of_long_line:
  "words_of [CHR '' '', CHR 0x0A] (''cd /tmp'' @ concat (replicate n '' x'') @ [CHR 0x0A])
     = ''cd'' # ''/tmp'' # replicate n ''x''"
  by (simp add: words_of_def split_runs_repeated)

lemma shell_iteration_overflow:
  assumes line: "NUL \<notin> set line"
    and many: "BIG_NUM - 1 \<le> length (words_of [CHR '' '', CHR 0x0A] line)"
    and cells: "length command_args = BIG_NUM"
    and cur: "getcwd s = Some cur" and home: "env s ''HOME'' = Some h"
  shows "\<exists>s' args'. shell_iteration os line command_args s = Inr (Continue s', args')
           \<and> cwd s' = cwd s \<and> env s' = env s \<and> calls s' = calls s
           \<and> err s' = err s @ [Message (''Exceeded length'' @ [CHR 0x0A])]"
proof -
  define delim where "delim = [CHR '' '', CHR 0x0A]"
  have buf: "line @ [NUL] = [] @ line @ NUL # []" by simp
  have limit: "1 \<le> int BIG_NUM" by (simp add: BIG_NUM_def)
  have room: "nat (int BIG_NUM) \<le> length command_args"
    by (simp add: cells)
  have nd: "NUL \<notin> set delim" by (simp add: delim_def NUL_def)
  from tokenize_words [OF buf line nd limit room]
  obtain r where
    run: "tokenize (line @ [NUL]) 0 delim command_args (int BIG_NUM) = Inr r"
    and ret: "tk_ret r = (if int (length (words_of delim line)) < int BIG_NUM - 1 then 0 else - 1)"
    by auto
  have ret': "tk_ret r = - 1"
    using ret many by (simp add: delim_def BIG_NUM_def)
  show ?thesis
    using cur home run ret'
    by (simp add: shell_iteration_def read_array_def Let_def delim_def [symmetric] dispatch_def)
qed

lemma shell_iteration_discards:
  assumes line: "NUL \<notin> set line"
    and many: "BIG_NUM - 1 \<le> length (words_of [CHR '' '', CHR 0x0A] line)"
    and cells: "length command_args = BIG_NUM"
  shows "map_sum id fst (shell_iteration os line command_args s) =
           after_prompt os s
             (\<lambda>s1. Inr (Continue (s1\<lparr>err := err s1 @ [Message (''Exceeded length'' @ [CHR 0x0A])]\<rparr>)))"
proof -
  define delim where "delim = [CHR '' '', CHR 0x0A]"
  have buf: "line @ [NUL] = [] @ line @ NUL # []" by simp
  have limit: "1 \<le> int BIG_NUM" by (simp add: BIG_NUM_def)
  have room: "nat (int BIG_NUM) \<le> length command_args"
    by (simp add: cells)
  have nd: "NUL \<notin> set delim" by (simp add: delim_def NUL_def)
  from tokenize_words [OF buf line nd limit room]
  obtain r where
    run: "tokenize (line @ [NUL]) 0 delim command_args (int BIG_NUM) = Inr r"
    and ret: "tk_ret r = (if int (length (words_of delim line)) < int BIG_NUM - 1 then 0 else - 1)"
    by auto
  have ret': "tk_ret r = - 1"
    using ret many by (simp add: delim_def BIG_NUM_def)
  show ?thesis
    using run ret'
    by (simp add: shell_iteration_def after_prompt_def prompted_def Let_def delim_def [symmetric]
          dispatch_def split: sum.splits option.splits)
qed

section \<open>What an iteration does with a command to launch\<close>

lemma launch_double_blank:
  assumes "length command_args = BIG_NUM" and "getcwd s = Some cur" and "env s ''HOME'' = Some h"
    and "fork_res os = Inr pid" and "pid \<noteq> 0"
  shows "calls_after (shell_iteration os (''sleep 5  &'' @ [CHR 0x0A]) command_args s)
           = Some (calls s @ [Fork, IgnoreSigchld, Wait])"
    and "out_after (shell_iteration os (''sleep 5  &'' @ [CHR 0x0A]) command_args s)
           = Some (out s @ prompt_text (case pw_name os of Some n \<Rightarrow> n | None \<Rightarrow> ''ERROR'') (hostname os)
                                 (if cur = h then ''~'' else cur)
                                 (if (case pw_name os of Some n \<Rightarrow> n | None \<Rightarrow> ''ERROR'') \<noteq> ''root''
                                  then CHR ''%'' else CHR ''#''))"
  using assms
  by (simp_all add: shell_iteration_def tokenize_def strtok_def tokenize_loop.simps dispatch_def
        launch_def read_str_def c_str_def is_delim_def in_token_def NUL_def BIG_NUM_def Let_def
        read_array_def calls_after_def out_after_def)

section \<open>The path-change handler's contract\<close>

text \<open>
  C6. Whatever the argument, if the path is assembled and \<^verbatim>\<open>chdir\<close> fails with
  cause \<open>e\<close>, then \<^verbatim>\<open>cd\<close> returns with the working directory and the whole environment
  (\<^verbatim>\<open>PWD\<close> and \<^verbatim>\<open>OLDPWD\<close> among it) as they were, with \<^verbatim>\<open>perror\<close>'s report of \<open>e\<close> as
  the one new diagnostic, and with \<^verbatim>\<open>chdir\<close> as the one call made: no \<^verbatim>\<open>setenv\<close>.
\<close>

theorem cd_failed_chdir:
  assumes "cd_path buf given_path s = Inr (new_path, buf', s1)"
    and "chdir_res os (cwd s) new_path = Inl e"
  shows "\<exists>s'. cd os buf given_path s = Inr (buf', s')
           \<and> cwd s' = cwd s \<and> env s' = env s
           \<and> err s' = err s @ [Perror [] e]
           \<and> calls s' = calls s @ [Chdir new_path]"
  using assms cd_path_state [OF assms(1)]
  by (simp add: cd_def cd_apply_def Let_def)


theorem cd_failed_chdir_witness:
  "\<exists>buf' s'. cd (example_os\<lparr>chdir_res := \<lambda>d p. Inl ENOENT\<rparr>) (''nowhere'' @ [NUL]) (Some 0) example_state
                 = Inr (buf', s')
           \<and> cwd s' = ''/home/u'' \<and> env s' = env example_state
           \<and> err s' = [Perror [] ENOENT]
           \<and> calls s' = [Chdir ''/home/u/nowhere'']"
proof -
  from cd_path_string [of "''nowhere'' @ [NUL]" "[]" "''nowhere''" "[]" example_state]
  obtain buf' where
    path: "cd_path (''nowhere'' @ [NUL]) (Some 0) example_state
             = Inr (''/home/u/nowhere'', buf', example_state)"
    by (auto simp: cd_eval example_state_def NUL_def)
  have fails: "chdir_res (example_os\<lparr>chdir_res := \<lambda>d p. Inl ENOENT\<rparr>) (cwd example_state) ''/home/u/nowhere''
                 = Inl ENOENT"
    by simp
  from cd_failed_chdir [OF path fails] show ?thesis
    by (auto simp: example_state_def)
qed

text \<open>
  C10. After a \<^verbatim>\<open>chdir\<close> that succeeded, what \<^verbatim>\<open>cd\<close> does is decided by the two
  \<^verbatim>\<open>setenv\<close> calls in turn. If \<^verbatim>\<open>OLDPWD\<close> cannot be set, the cause is reported, the
  environment is as it was and \<^verbatim>\<open>setenv\<close> is not called for \<^verbatim>\<open>PWD\<close>. If \<^verbatim>\<open>OLDPWD\<close>
  is set and \<^verbatim>\<open>PWD\<close> cannot be, the cause is reported and only \<^verbatim>\<open>OLDPWD\<close> has
  changed. Otherwise both have changed. In no case has \<^verbatim>\<open>PWD\<close> changed and
  \<^verbatim>\<open>OLDPWD\<close> not.
\<close>

theorem cd_oldpwd_before_pwd:
  assumes "cd_path buf given_path s = Inr (new_path, buf', s1)"
    and "chdir_res os (cwd s) new_path = Inr d"
    and "getcwd s = Some cur"
  shows "\<exists>s'. cd os buf given_path s = Inr (buf', s') \<and> cwd s' = d
           \<and> (case setenv_res os ''OLDPWD'' cur of
                 Some e \<Rightarrow>
                   env s' = env s \<and> err s' = err s @ [Perror [] e]
                   \<and> calls s' = calls s @ [Chdir new_path, Setenv ''OLDPWD'' cur]
               | None \<Rightarrow>
                   (case setenv_res os ''PWD'' new_path of
                      Some e \<Rightarrow>
                        env s' = (env s)(''OLDPWD'' \<mapsto> cur) \<and> err s' = err s @ [Perror [] e]
                        \<and> calls s' = calls s @ [Chdir new_path, Setenv ''OLDPWD'' cur,
                                                 Setenv ''PWD'' new_path]
                    | None \<Rightarrow>
                        env s' = (env s)(''OLDPWD'' \<mapsto> cur, ''PWD'' \<mapsto> new_path) \<and> err s' = err s
                        \<and> calls s' = calls s @ [Chdir new_path, Setenv ''OLDPWD'' cur,
                                                 Setenv ''PWD'' new_path]))"
proof -
  have same: "cwd s1 = cwd s" "env s1 = env s" "err s1 = err s" "calls s1 = calls s"
    using cd_path_state [OF assms(1)] by simp_all
  have cur1: "getcwd s1 = Some cur"
    using assms(3) same(1) by (simp add: getcwd_def split: if_splits)
  show ?thesis
    using assms(1,2) same cur1
    by (simp add: cd_def cd_apply_def Let_def read_array_def split: option.splits)
qed


theorem cd_oldpwd_before_pwd_witness:
  "(\<exists>buf' s'. cd (example_os\<lparr>setenv_res := \<lambda>name value. if name = ''OLDPWD'' then Some ENOMEM else None\<rparr>)
                  (''/tmp'' @ [NUL]) (Some 0) example_state = Inr (buf', s')
            \<and> cwd s' = ''/tmp'' \<and> env s' = env example_state \<and> err s' = [Perror [] ENOMEM]
            \<and> calls s' = [Chdir ''//tmp'', Setenv ''OLDPWD'' ''/home/u''])
   \<and> (\<exists>buf' s'. cd (example_os\<lparr>setenv_res := \<lambda>name value. if name = ''PWD'' then Some ENOMEM else None\<rparr>)
                  (''/tmp'' @ [NUL]) (Some 0) example_state = Inr (buf', s')
            \<and> cwd s' = ''/tmp'' \<and> env s' = (env example_state)(''OLDPWD'' \<mapsto> ''/home/u'')
            \<and> err s' = [Perror [] ENOMEM]
            \<and> calls s' = [Chdir ''//tmp'', Setenv ''OLDPWD'' ''/home/u'', Setenv ''PWD'' ''//tmp''])"
proof -
  from cd_path_string [of "''/tmp'' @ [NUL]" "[]" "''/tmp''" "[]" example_state]
  obtain buf' where
    path: "cd_path (''/tmp'' @ [NUL]) (Some 0) example_state = Inr (''//tmp'', buf', example_state)"
    by (auto simp: cd_eval example_state_def NUL_def)
  have cur: "getcwd example_state = Some ''/home/u''"
    by (simp add: getcwd_def example_state_def PATH_MAX_def)
  have ok: "chdir_res (example_os\<lparr>setenv_res := f\<rparr>) (cwd example_state) ''//tmp'' = Inr ''/tmp''" for f
    by (simp add: example_os_def example_chdir_def words_of_def)
  show ?thesis
    using cd_oldpwd_before_pwd [OF path ok cur,
            of "\<lambda>name value. if name = ''OLDPWD'' then Some ENOMEM else None"]
          cd_oldpwd_before_pwd [OF path ok cur,
            of "\<lambda>name value. if name = ''PWD'' then Some ENOMEM else None"]
    by (simp add: example_state_def) blast
qed

text \<open>
  C7. A relative argument (it does not start with a separator and its first segment is
  neither \<^verbatim>\<open>~\<close> nor \<^verbatim>\<open>-\<close>), anywhere in a buffer, in a process whose directory is
  \<open>cwd s\<close>: the path assembled is that directory followed by each segment of the
  argument behind a separator. When it fits the buffer and \<^verbatim>\<open>chdir\<close> and both
  \<^verbatim>\<open>setenv\<close> calls succeed, \<^verbatim>\<open>chdir\<close> is called with that path, then \<^verbatim>\<open>OLDPWD\<close> is
  set to the directory before the call, then \<^verbatim>\<open>PWD\<close> to the path, and nothing else
  changes. \<^verbatim>\<open>cd a/b\<close> from \<^verbatim>\<open>/x\<close> gives \<^verbatim>\<open>/x/a/b\<close>, \<^verbatim>\<open>/x\<close> and \<^verbatim>\<open>/x/a/b\<close>.
\<close>

theorem cd_relative_success:
  assumes "buf = pre @ arg @ NUL # post" and "NUL \<notin> set arg"
    and "words_of ''/'' arg = first # rest"
    and "hd arg \<noteq> CHR ''/''" and "first \<noteq> ''~''" and "first \<noteq> ''-''"
    and "new_path = cwd s @ appended (take (BIG_NUM - 1) (first # rest))"
    and "length new_path < PATH_MAX"
    and "chdir_res os (cwd s) new_path = Inr d"
    and "setenv_res os ''OLDPWD'' (cwd s) = None"
    and "setenv_res os ''PWD'' new_path = None"
  shows "\<exists>buf'. cd os buf (Some (length pre)) s =
           Inr (buf', s\<lparr>cwd := d,
                         env := (env s)(''OLDPWD'' \<mapsto> cwd s, ''PWD'' \<mapsto> new_path),
                         calls := calls s @ [Chdir new_path, Setenv ''OLDPWD'' (cwd s),
                                             Setenv ''PWD'' new_path]\<rparr>)"
proof -
  define segs where "segs = first # rest"
  define n where "n = min (length (words_of ''/'' arg)) (BIG_NUM - 1)"
  have n_le: "n \<le> length segs" and n_pos: "0 < n"
    using assms(3) by (simp_all add: n_def segs_def BIG_NUM_def)
  have taken: "take (BIG_NUM - 1) segs = take n segs"
    using assms(3) by (simp add: n_def segs_def min_def)
  have cur: "getcwd s = Some (cwd s)"
    using assms(7,8) by (simp add: getcwd_def)
  have cells: "\<forall>j < n. path_cells arg ! j = Some (segs ! j)"
    using path_cells_nth [of _ arg] assms(3) by (simp add: n_def segs_def)
  have cell0: "path_cells arg ! 0 = Some first"
    using cells n_pos by (simp add: segs_def)
  have room: "n \<le> length (path_cells arg)"
    by (simp add: path_cells_length n_def BIG_NUM_def PATH_MAX_def)
  have fits: "length (cwd s) + length (appended (drop 0 (take n segs))) < PATH_MAX"
    using assms(7,8) taken by (simp add: segs_def)
  have loop: "cd_append (path_cells arg) n 0 (cwd s) = Inr new_path"
    using cd_append_cells [OF refl _ n_le room cells fits] assms(7) taken
    by (simp add: segs_def)
  have build: "cd_build (arg \<noteq> [] \<and> hd arg = CHR ''/'') (path_cells arg) n s = Inr (new_path, s)"
    using cell0 assms(4,5,6) cur loop fits
    by (simp add: cd_build_def read_array_def strcat_path_def)
  from cd_path_string [OF assms(1,2), of s]
  obtain buf' where path: "cd_path buf (Some (length pre)) s = Inr (new_path, buf', s)"
    unfolding n_def [symmetric] build by auto
  from cd_succeeds [OF path assms(9) cur assms(10,11)] show ?thesis by blast
qed

theorem cd_relative_success_witness:
  "(\<exists>buf'. cd example_os (''a/b'' @ [NUL]) (Some 0) (example_state\<lparr>cwd := ''/x''\<rparr>) =
           Inr (buf', example_state\<lparr>cwd := ''/x/a/b'',
                  env := (env example_state)(''OLDPWD'' \<mapsto> ''/x'', ''PWD'' \<mapsto> ''/x/a/b''),
                  calls := [Chdir ''/x/a/b'', Setenv ''OLDPWD'' ''/x'', Setenv ''PWD'' ''/x/a/b'']\<rparr>))
   \<and> (\<exists>buf'. cd (example_os\<lparr>chdir_res := \<lambda>d p. Inr p\<rparr>) (''cd c/d/e'' @ [NUL]) (Some 3) example_state =
           Inr (buf', example_state\<lparr>cwd := ''/home/u/c/d/e'',
                  env := (env example_state)(''OLDPWD'' \<mapsto> ''/home/u'', ''PWD'' \<mapsto> ''/home/u/c/d/e''),
                  calls := [Chdir ''/home/u/c/d/e'', Setenv ''OLDPWD'' ''/home/u'',
                            Setenv ''PWD'' ''/home/u/c/d/e'']\<rparr>))"
  using cd_relative_success [of "''a/b'' @ [NUL]" "[]" "''a/b''" "[]" "''a''" "[''b'']" "''/x/a/b''"
          "example_state\<lparr>cwd := ''/x''\<rparr>" example_os "''/x/a/b''"]
        cd_relative_success [of "''cd c/d/e'' @ [NUL]" "''cd ''" "''c/d/e''" "[]" "''c''" "[''d'', ''e'']"
          "''/home/u/c/d/e''" example_state "example_os\<lparr>chdir_res := \<lambda>d p. Inr p\<rparr>" "''/home/u/c/d/e''"]
  by (simp add: example_os_def example_chdir_def words_of_def example_state_def appended_def
        NUL_def BIG_NUM_def PATH_MAX_def numeral_3_eq_3)

text \<open>
  C9. \<^verbatim>\<open>cd\<close> hands what \<^verbatim>\<open>getenv\<close> returned to \<^verbatim>\<open>strcat\<close> and \<^verbatim>\<open>strcpy\<close> unchecked.
  With no argument, and with an argument whose first segment is \<^verbatim>\<open>~\<close>, the call
  dereferences a null pointer exactly when \<^verbatim>\<open>HOME\<close> is not set; with an argument
  whose first segment is \<^verbatim>\<open>-\<close>, exactly when \<^verbatim>\<open>OLDPWD\<close> is not set.
\<close>

theorem cd_needs_home_and_oldpwd:
  assumes "buf = pre @ a @ NUL # post" and "NUL \<notin> set a" and "words_of ''/'' a = first # rest"
  shows "(env s ''HOME'' = None \<longrightarrow> cd os buf None s = Inl NullDeref)
       \<and> (env s ''HOME'' \<noteq> None \<longrightarrow> cd os buf None s \<noteq> Inl NullDeref)
       \<and> (first = ''~'' \<and> env s ''HOME'' = None \<longrightarrow> cd os buf (Some (length pre)) s = Inl NullDeref)
       \<and> (first = ''~'' \<and> env s ''HOME'' \<noteq> None \<longrightarrow> cd os buf (Some (length pre)) s \<noteq> Inl NullDeref)
       \<and> (first = ''-'' \<and> env s ''OLDPWD'' = None \<longrightarrow> cd os buf (Some (length pre)) s = Inl NullDeref)
       \<and> (first = ''-'' \<and> env s ''OLDPWD'' \<noteq> None \<longrightarrow> cd os buf (Some (length pre)) s \<noteq> Inl NullDeref)"
proof -
  define n where "n = min (length (words_of ''/'' a)) (BIG_NUM - 1)"
  define rooted where "rooted \<longleftrightarrow> a \<noteq> [] \<and> hd a = CHR ''/''"
  from cd_path_string [OF assms(1,2), of s]
  obtain buf' where
    path: "cd_path buf (Some (length pre)) s =
             (case cd_build rooted (path_cells a) n s of
                Inl f \<Rightarrow> Inl f
              | Inr (new_path, s') \<Rightarrow> Inr (new_path, buf', s'))"
    unfolding n_def rooted_def by blast
  have n_pos: "0 < n"
    using assms(3) by (simp add: n_def BIG_NUM_def)
  have cell0: "path_cells a ! 0 = Some first"
    using path_cells_nth [of 0 a] n_pos assms(3) by (simp add: n_def)
  have cells: "j < n \<Longrightarrow> ((path_cells a)[0 := Some []]) ! j \<noteq> None" for j
    using path_cells_nth [of j a] path_cells_length [of a]
    by (cases j) (simp_all add: n_def PATH_MAX_def)
  have no_arg_unset: "env s ''HOME'' = None \<Longrightarrow> cd os buf None s = Inl NullDeref"
    by (simp add: cd_def cd_path_def strcat_path_def)
  have no_arg_set: "env s ''HOME'' \<noteq> None \<Longrightarrow> cd os buf None s \<noteq> Inl NullDeref"
    using cd_apply_no_null [of os]
    by (auto simp: cd_def cd_path_def strcat_path_def split: sum.splits if_splits)
  have tilde_unset: "first = ''~'' \<Longrightarrow> env s ''HOME'' = None \<Longrightarrow>
                       cd os buf (Some (length pre)) s = Inl NullDeref"
    using cell0 by (simp add: cd_def path cd_build_def strcpy_path_def)
  have dash_unset: "first = ''-'' \<Longrightarrow> env s ''OLDPWD'' = None \<Longrightarrow>
                       cd os buf (Some (length pre)) s = Inl NullDeref"
    using cell0 by (simp add: cd_def path cd_build_def strcpy_path_def)
  have tilde_set: "first = ''~'' \<Longrightarrow> env s ''HOME'' \<noteq> None \<Longrightarrow>
                       cd os buf (Some (length pre)) s \<noteq> Inl NullDeref"
    using cell0 cd_apply_no_null [of os] cd_append_no_null [of n "(path_cells a)[0 := Some []]" 0] cells
    by (auto simp: cd_def path cd_build_def strcpy_path_def split: sum.splits if_splits)
  have dash_set: "first = ''-'' \<Longrightarrow> env s ''OLDPWD'' \<noteq> None \<Longrightarrow>
                       cd os buf (Some (length pre)) s \<noteq> Inl NullDeref"
    using cell0 cd_apply_no_null [of os]
    by (auto simp: cd_def path cd_build_def strcpy_path_def cd_append.simps split: sum.splits if_splits)
  show ?thesis
    using no_arg_unset no_arg_set tilde_unset tilde_set dash_unset dash_set by blast
qed


theorem cd_needs_home_and_oldpwd_witness:
  "cd example_os (''~'' @ [NUL]) None (example_state\<lparr>env := Map.empty\<rparr>) = Inl NullDeref
   \<and> cd example_os (''~'' @ [NUL]) (Some 0) (example_state\<lparr>env := Map.empty\<rparr>) = Inl NullDeref
   \<and> cd example_os (''-'' @ [NUL]) (Some 0) (example_state\<lparr>env := Map.empty\<rparr>) = Inl NullDeref
   \<and> cd example_os (''~'' @ [NUL]) None example_state \<noteq> Inl NullDeref
   \<and> cd example_os (''~'' @ [NUL]) (Some 0) example_state \<noteq> Inl NullDeref
   \<and> cd example_os (''-'' @ [NUL]) (Some 0) example_state \<noteq> Inl NullDeref"
  using cd_needs_home_and_oldpwd [of "''~'' @ [NUL]" "[]" "''~''" "[]" "''~''" "[]"
          "example_state\<lparr>env := Map.empty\<rparr>" example_os]
        cd_needs_home_and_oldpwd [of "''-'' @ [NUL]" "[]" "''-''" "[]" "''-''" "[]"
          "example_state\<lparr>env := Map.empty\<rparr>" example_os]
        cd_needs_home_and_oldpwd [of "''~'' @ [NUL]" "[]" "''~''" "[]" "''~''" "[]"
          example_state example_os]
        cd_needs_home_and_oldpwd [of "''-'' @ [NUL]" "[]" "''-''" "[]" "''-''" "[]"
          example_state example_os]
  by (simp add: words_of_def NUL_def example_state_def)





section \<open>The command loop's contract\<close>

text \<open>
  C1, as the code has it. The line \<^verbatim>\<open>cd /tmp\<close> and a newline, in a process whose directory
  is \<^verbatim>\<open>/home/u\<close>, with \<^verbatim>\<open>HOME\<close> set: the path assembled for the absolute argument is
  the anchor \<^verbatim>\<open>/\<close>, a separator and the segment, \<^verbatim>\<open>//tmp\<close>. If the system takes
  that path to \<^verbatim>\<open>/tmp\<close> and lets the environment be set, the iteration goes on with the
  working directory \<^verbatim>\<open>/tmp\<close>, \<^verbatim>\<open>OLDPWD\<close> equal to \<^verbatim>\<open>/home/u\<close> and \<^verbatim>\<open>PWD\<close> equal to
  \<^verbatim>\<open>//tmp\<close>.
\<close>

theorem cd_tmp_scenario:
  assumes "cwd s = ''/home/u''" and "env s ''HOME'' = Some h" and "length command_args = BIG_NUM"
    and "chdir_res os ''/home/u'' ''//tmp'' = Inr ''/tmp''"
    and "setenv_res os ''OLDPWD'' ''/home/u'' = None" and "setenv_res os ''PWD'' ''//tmp'' = None"
  shows "\<exists>s' args'. shell_iteration os (''cd /tmp'' @ [CHR 0x0A]) command_args s = Inr (Continue s', args')
           \<and> cwd s' = ''/tmp''
           \<and> env s' ''OLDPWD'' = Some ''/home/u''
           \<and> env s' ''PWD'' = Some ''//tmp''
           \<and> calls s' = calls s @ [Chdir ''//tmp'', Setenv ''OLDPWD'' ''/home/u'',
                                    Setenv ''PWD'' ''//tmp'']"
  using shell_iteration_cd_tmp [OF assms] by auto

theorem cd_tmp_scenario_witness:
  "\<exists>s' args'. shell_iteration example_os (''cd /tmp'' @ [CHR 0x0A]) (replicate BIG_NUM None) example_state
                 = Inr (Continue s', args')
           \<and> cwd s' = ''/tmp''
           \<and> env s' ''OLDPWD'' = Some ''/home/u''
           \<and> env s' ''PWD'' = Some ''//tmp''
           \<and> calls s' = [Chdir ''//tmp'', Setenv ''OLDPWD'' ''/home/u'', Setenv ''PWD'' ''//tmp'']"
  using cd_tmp_scenario [of example_state "''/home/u''" "replicate BIG_NUM None" example_os]
        example_accepts_tmp
  by (simp add: example_state_def)

text \<open>
  C1, as stated, fails in the example system: after the iteration \<^verbatim>\<open>PWD\<close> is
  \<^verbatim>\<open>//tmp\<close>, not \<^verbatim>\<open>/tmp\<close>.
\<close>

theorem cd_tmp_leaves_double_separator:
  "env_after (shell_iteration example_os (''cd /tmp'' @ [CHR 0x0A]) (replicate BIG_NUM None) example_state)
     ''PWD'' = Some ''//tmp''
   \<and> env_after (shell_iteration example_os (''cd /tmp'' @ [CHR 0x0A]) (replicate BIG_NUM None) example_state)
     ''PWD'' \<noteq> Some ''/tmp''"
proof -
  from shell_iteration_cd_tmp [of example_state "''/home/u''" "replicate BIG_NUM None" example_os "''/tmp''"]
       example_accepts_tmp
  obtain s' args' where
    "shell_iteration example_os (''cd /tmp'' @ [CHR 0x0A]) (replicate BIG_NUM None) example_state
       = Inr (Continue s', args')"
    and "env s' = (env example_state)(''OLDPWD'' \<mapsto> ''/home/u'', ''PWD'' \<mapsto> ''//tmp'')"
    by (auto simp: example_state_def)
  then show ?thesis
    by (simp add: env_after_def continued_def)
qed

text \<open>
  C8, as the code has it. A line without the terminator whose first word is \<^verbatim>\<open>cd\<close>,
  with a second word and fewer than \<open>BIG_NUM - 1\<close> words in all: once the prompt is
  printed, the iteration is the length check on the second word and then \<^verbatim>\<open>cd\<close> on
  the second word as a string of its own. No word behind the second, a trailing
  \<^verbatim>\<open>&\<close> included, occurs in what it does. A line with \<open>BIG_NUM\<close> words or more is
  dropped, whatever its words are: once the prompt is printed, the iteration is the
  diagnostic alone.
\<close>

theorem cd_receives_second_token_only:
  assumes "NUL \<notin> set line" and "length command_args = BIG_NUM"
  shows "(words_of [CHR '' '', CHR 0x0A] line = ''cd'' # a # rest \<and> length rest + 2 < BIG_NUM - 1 \<longrightarrow>
            map_sum id fst (shell_iteration os line command_args s) =
              after_prompt os s
                (\<lambda>s1. if PATH_MAX < length a then
                         Inr (Continue (s1\<lparr>err := err s1 @ [Message ''ERROR: Path Invalid: too long'']\<rparr>))
                       else
                         (case cd os (a @ [NUL]) (Some 0) s1 of
                            Inl f \<Rightarrow> Inl f
                          | Inr (buf', s') \<Rightarrow> Inr (Continue s'))))
       \<and> (BIG_NUM \<le> length (words_of [CHR '' '', CHR 0x0A] line) \<longrightarrow>
            map_sum id fst (shell_iteration os line command_args s) =
              after_prompt os s
                (\<lambda>s1. Inr (Continue (s1\<lparr>err := err s1 @ [Message (''Exceeded length'' @ [CHR 0x0A])]\<rparr>))))"
proof (intro conjI impI)
  assume ws: "words_of [CHR '' '', CHR 0x0A] line = ''cd'' # a # rest \<and> length rest + 2 < BIG_NUM - 1"
  then have w: "words_of [CHR '' '', CHR 0x0A] line = ''cd'' # a # rest"
    and few: "length rest + 2 < BIG_NUM - 1"
    by simp_all
  show "map_sum id fst (shell_iteration os line command_args s) =
              after_prompt os s
                (\<lambda>s1. if PATH_MAX < length a then
                         Inr (Continue (s1\<lparr>err := err s1 @ [Message ''ERROR: Path Invalid: too long'']\<rparr>))
                       else
                         (case cd os (a @ [NUL]) (Some 0) s1 of
                            Inl f \<Rightarrow> Inl f
                          | Inr (buf', s') \<Rightarrow> Inr (Continue s')))"
    unfolding shell_iteration_cd [OF assms(1) w few assms(2), of os s]
    by (simp add: after_prompt_def prompted_def Let_def split: sum.splits option.splits)
next
  assume "BIG_NUM \<le> length (words_of [CHR '' '', CHR 0x0A] line)"
  then have many: "BIG_NUM - 1 \<le> length (words_of [CHR '' '', CHR 0x0A] line)"
    by simp
  show "map_sum id fst (shell_iteration os line command_args s) =
              after_prompt os s
                (\<lambda>s1. Inr (Continue (s1\<lparr>err := err s1 @ [Message (''Exceeded length'' @ [CHR 0x0A])]\<rparr>)))"
    by (rule shell_iteration_discards [OF assms(1) many assms(2)])
qed

theorem cd_receives_second_token_only_witness:
  "map_sum id fst (shell_iteration example_os (''cd /tmp x &'' @ [CHR 0x0A]) (replicate BIG_NUM None)
                     example_state) =
     after_prompt example_os example_state
       (\<lambda>s1. if PATH_MAX < length ''/tmp'' then
                Inr (Continue (s1\<lparr>err := err s1 @ [Message ''ERROR: Path Invalid: too long'']\<rparr>))
              else
                (case cd example_os (''/tmp'' @ [NUL]) (Some 0) s1 of
                   Inl f \<Rightarrow> Inl f
                 | Inr (buf', s') \<Rightarrow> Inr (Continue s')))
   \<and> map_sum id fst (shell_iteration example_os
                       (''cd /tmp'' @ concat (replicate 2046 '' x'') @ [CHR 0x0A])
                       (replicate BIG_NUM None) example_state) =
     after_prompt example_os example_state
       (\<lambda>s1. Inr (Continue (s1\<lparr>err := err s1 @ [Message (''Exceeded length'' @ [CHR 0x0A])]\<rparr>)))"
proof -
  have cells: "length (replicate BIG_NUM (None :: nat option)) = BIG_NUM"
    by simp
  have short: "NUL \<notin> set (''cd /tmp x &'' @ [CHR 0x0A])"
    by (simp add: NUL_def)
  have words: "words_of [CHR '' '', CHR 0x0A] (''cd /tmp x &'' @ [CHR 0x0A]) = ''cd'' # ''/tmp'' # [''x'', ''&'']
                 \<and> length [''x'', ''&''] + 2 < BIG_NUM - 1"
    by (simp add: words_of_def BIG_NUM_def)
  have long: "NUL \<notin> set (''cd /tmp'' @ concat (replicate 2046 '' x'') @ [CHR 0x0A])"
    by (auto simp: NUL_def)
  have many: "BIG_NUM \<le> length (words_of [CHR '' '', CHR 0x0A]
                 (''cd /tmp'' @ concat (replicate 2046 '' x'') @ [CHR 0x0A]))"
    by (simp only: words_of_long_line) (simp add: BIG_NUM_def)
  from cd_receives_second_token_only [OF short cells, of "''/tmp''" "[''x'', ''&'']" example_os example_state]
       words
  have first: "map_sum id fst (shell_iteration example_os (''cd /tmp x &'' @ [CHR 0x0A]) (replicate BIG_NUM None)
                     example_state) =
     after_prompt example_os example_state
       (\<lambda>s1. if PATH_MAX < length ''/tmp'' then
                Inr (Continue (s1\<lparr>err := err s1 @ [Message ''ERROR: Path Invalid: too long'']\<rparr>))
              else
                (case cd example_os (''/tmp'' @ [NUL]) (Some 0) s1 of
                   Inl f \<Rightarrow> Inl f
                 | Inr (buf', s') \<Rightarrow> Inr (Continue s')))"
    by blast
  from cd_receives_second_token_only [OF long cells, of "''/tmp''" "[]" example_os example_state]
       many
  have second: "map_sum id fst (shell_iteration example_os
                       (''cd /tmp'' @ concat (replicate 2046 '' x'') @ [CHR 0x0A])
                       (replicate BIG_NUM None) example_state) =
     after_prompt example_os example_state
       (\<lambda>s1. Inr (Continue (s1\<lparr>err := err s1 @ [Message (''Exceeded length'' @ [CHR 0x0A])]\<rparr>)))"
    by blast
  from first second show ?thesis by (rule conjI)
qed


text \<open>
  C8, as stated, fails in the example system: behind \<^verbatim>\<open>cd /tmp\<close>, 2046 more words
  make the tokenizer report overflow, the line is dropped, and the working directory
  stays \<^verbatim>\<open>/home/u\<close>; without them it becomes \<^verbatim>\<open>/tmp\<close>.
\<close>

theorem cd_dropped_on_long_line:
  "cwd_after (shell_iteration example_os (''cd /tmp'' @ concat (replicate 2046 '' x'') @ [CHR 0x0A])
                (replicate BIG_NUM None) example_state)
     \<noteq> cwd_after (shell_iteration example_os (''cd /tmp'' @ [CHR 0x0A])
                (replicate BIG_NUM None) example_state)"
proof -
  have cur: "getcwd example_state = Some ''/home/u''"
    by (simp add: getcwd_def example_state_def PATH_MAX_def)
  have home: "env example_state ''HOME'' = Some ''/home/u''"
    by (simp add: example_state_def)
  have line: "NUL \<notin> set (''cd /tmp'' @ concat (replicate 2046 '' x'') @ [CHR 0x0A])"
    by (auto simp: NUL_def)
  have many: "BIG_NUM - 1 \<le> length (words_of [CHR '' '', CHR 0x0A]
                 (''cd /tmp'' @ concat (replicate 2046 '' x'') @ [CHR 0x0A]))"
    by (simp only: words_of_long_line) (simp add: BIG_NUM_def)
  have cells: "length (replicate BIG_NUM (None :: nat option)) = BIG_NUM"
    by simp
  from shell_iteration_overflow [OF line many cells cur home, of example_os]
  have long: "cwd_after (shell_iteration example_os (''cd /tmp'' @ concat (replicate 2046 '' x'') @ [CHR 0x0A])
                (replicate BIG_NUM None) example_state) = Some ''/home/u''"
    by (auto simp: cwd_after_def continued_def example_state_def)
  from shell_iteration_cd_tmp [of example_state "''/home/u''" "replicate BIG_NUM None" example_os "''/tmp''"]
       example_accepts_tmp
  have short: "cwd_after (shell_iteration example_os (''cd /tmp'' @ [CHR 0x0A])
                (replicate BIG_NUM None) example_state) = Some ''/tmp''"
    by (auto simp: cwd_after_def continued_def example_state_def)
  show ?thesis
    unfolding long short by simp
qed

text \<open>
  C2. The line \<^verbatim>\<open>sleep 5  &\<close> (two blanks before the \<^verbatim>\<open>&\<close>) and a newline, in the
  example system. The last token is exactly \<^verbatim>\<open>&\<close>, and the child strips it:
  \<^verbatim>\<open>execvp\<close> gets \<^verbatim>\<open>sleep 5\<close>. The parent calls \<^verbatim>\<open>wait\<close> and prints no job notice
  (its output is the prompt alone): one byte before the last token stands the second
  blank, so \<^verbatim>\<open>strlen(final_arg - 1)\<close> is 2 and the byte tested is the one behind the
  token's terminator.
\<close>

theorem background_request_is_waited_for:
  "calls_after (shell_iteration example_os (''sleep 5  &'' @ [CHR 0x0A]) (replicate BIG_NUM None)
                  example_state)
     = Some [Fork, IgnoreSigchld, Wait]
   \<and> out_after (shell_iteration example_os (''sleep 5  &'' @ [CHR 0x0A]) (replicate BIG_NUM None)
                  example_state)
     = Some (prompt_text ''u'' ''host'' ''~'' CHR ''%'')
   \<and> calls_after (shell_iteration (example_os\<lparr>fork_res := Inr 0\<rparr>) (''sleep 5  &'' @ [CHR 0x0A])
                  (replicate BIG_NUM None) example_state)
     = Some [Fork, Execvp ''sleep'' [''sleep'', ''5'']]"
proof -
  have cur: "getcwd example_state = Some ''/home/u''"
    by (simp add: getcwd_def example_state_def PATH_MAX_def)
  have home: "env example_state ''HOME'' = Some ''/home/u''"
    by (simp add: example_state_def)
  have cells: "length (replicate BIG_NUM (None :: nat option)) = BIG_NUM"
    by simp
  have parent: "fork_res example_os = Inr 4711" "(4711 :: nat) \<noteq> 0"
    by (simp_all add: example_os_def)
  have big: "BIG_NUM = Suc (Suc (Suc (Suc 2044)))"
    by (simp add: BIG_NUM_def)
  have cells4: "replicate BIG_NUM (None :: nat option) = None # None # None # None # replicate 2044 None"
    by (simp only: big replicate_Suc)
  have child: "calls_after (shell_iteration (example_os\<lparr>fork_res := Inr 0\<rparr>) (''sleep 5  &'' @ [CHR 0x0A])
                  (replicate BIG_NUM None) example_state)
     = Some [Fork, Execvp ''sleep'' [''sleep'', ''5'']]"
    unfolding cells4 using cur home
    by (simp add: shell_iteration_def tokenize_def strtok_def tokenize_loop.simps dispatch_def
        launch_def read_str_def c_str_def is_delim_def in_token_def NUL_def BIG_NUM_def Let_def
        read_array_def calls_after_def argv_of_def example_os_def example_state_def
        split: option.splits)
  show ?thesis
    using launch_double_blank [OF cells cur home parent] child
    by (simp add: example_state_def example_os_def)
qed


end
